theory Spec2Isabelle
  imports Complex_Main "HOL-Library.Multiset"
begin

section \<open>Serpentine binning: the single-trial merger and the trial driver\<close>

text \<open>
  A shallow embedding of \<^verbatim>\<open>serpentin_iteration\<close> and \<^verbatim>\<open>serpentin_binning\<close> of
  \<^verbatim>\<open>serpentine.py\<close>.

  Conventions of the embedding.
  \<^item> Matrix entries and thresholds are real numbers: sums, means and comparisons are
    exact. The cast to 32-bit floats before the mean fill is not modelled.
  \<^item> A numpy array is a record of its shape and its cells in row-major order (what
    \<^verbatim>\<open>reshape\<close> to one dimension yields); numpy guarantees that the number of
    cells is the product of the shape (\<open>wf_array\<close>).
  \<^item> The results of numpy's division and \<^verbatim>\<open>log2\<close>, which never raise but yield
    infinities and NaN, are values of the type \<open>fval\<close>. Signed zeros are not
    distinguished.
  \<^item> Every exception the code can raise is a constructor of \<open>error\<close>, and every
    function that may raise returns \<open>error + 'a\<close>.
  \<^item> A Python set of region identifiers is a list used through set operations only
    (membership, removal, insertion, union).
  \<^item> The two random sources are read through the record \<open>rng\<close>: \<open>perms r i\<close> is what
    \<^verbatim>\<open>numpy.random.permutation\<close> returns in pass \<open>i\<close>, and \<open>picks r k\<close> is the
    \<open>k\<close>-th raw draw behind \<^verbatim>\<open>random.choice\<close>, which selects the element at position
    \<open>picks r k mod len\<close>. The graph carries the number of draws consumed so far.
  \<^item> Printing is not modelled, except that \<^verbatim>\<open>print_iteration\<close> computes a percentage
    before it looks at \<^verbatim>\<open>verbose\<close> and so divides by \<^verbatim>\<open>start\<close> in every call.
\<close>

subsection \<open>Data\<close>

datatype error =
  ValueError | IndexError | KeyError | TypeError | AttributeError | ZeroDivisionError

datatype fval = Fin real | PosInf | NegInf | NaN

record ndarray =
  shape :: "nat list"
  cells :: "real list"

record farray =
  fshape :: "nat list"
  fcells :: "fval list"

record rng =
  perms :: "nat \<Rightarrow> nat list"
  picks :: "nat \<Rightarrow> nat"

definition const_rng :: "nat list \<Rightarrow> nat \<Rightarrow> rng" where
  \<comment> \<open>a random source that returns the same permutation and the same draw every time\<close>
  "const_rng p k = \<lparr>perms = (\<lambda>i. p), picks = (\<lambda>i. k)\<rparr>"

record graph =
  pixels :: "nat list option list"
  neighs :: "nat list option list"
  draws :: nat

definition wf_array :: "ndarray \<Rightarrow> bool" where
  "wf_array A = (length (cells A) = prod_list (shape A))"

subsection \<open>Floating-point results that are not numbers\<close>

definition ratio :: "real \<Rightarrow> real \<Rightarrow> fval" where
  \<comment> \<open>\<^verbatim>\<open>v * 1. / u\<close> on finite operands\<close>
  "ratio v u =
     (if u \<noteq> 0 then Fin (v / u)
      else if v = 0 then NaN else if 0 < v then PosInf else NegInf)"

fun flog2 :: "fval \<Rightarrow> fval" where
  "flog2 (Fin x) = (if x < 0 then NaN else if x = 0 then NegInf else Fin (log 2 x))"
| "flog2 PosInf = PosInf"
| "flog2 NegInf = NaN"
| "flog2 NaN = NaN"

fun fadd :: "fval \<Rightarrow> fval \<Rightarrow> fval" where
  "fadd (Fin x) (Fin y) = Fin (x + y)"
| "fadd NaN _ = NaN"
| "fadd _ NaN = NaN"
| "fadd PosInf NegInf = NaN"
| "fadd NegInf PosInf = NaN"
| "fadd PosInf _ = PosInf"
| "fadd _ PosInf = PosInf"
| "fadd NegInf _ = NegInf"
| "fadd _ NegInf = NegInf"

fun fdiv_int :: "fval \<Rightarrow> int \<Rightarrow> fval" where
  \<comment> \<open>\<^verbatim>\<open>s * 1. / iterations\<close>, the divisor a Python integer\<close>
  "fdiv_int (Fin x) k = ratio x (real_of_int k)"
| "fdiv_int PosInf k = (if 0 \<le> k then PosInf else NegInf)"
| "fdiv_int NegInf k = (if 0 \<le> k then NegInf else PosInf)"
| "fdiv_int NaN k = NaN"

subsection \<open>Input validation\<close>

definition check_shapes :: "bool \<Rightarrow> ndarray \<Rightarrow> ndarray \<Rightarrow> bool" where
  \<comment> \<open>the three assertions on the shapes; \<open>False\<close> is the \<^verbatim>\<open>ValueError\<close>\<close>
  "check_shapes triangular A B =
     (shape A = shape B \<and> length (shape A) = 2 \<and>
      (triangular \<longrightarrow> Min (set (shape A)) = Max (set (shape A))))"

subsection \<open>The region graph\<close>

definition pixel_neighs_triangular :: "nat \<Rightarrow> nat \<Rightarrow> nat \<Rightarrow> (nat \<times> nat) list" where
  \<comment> \<open>\<open>i + 1 < sz\<close> is the source's \<^verbatim>\<open>i < size - 1\<close> on integers\<close>
  "pixel_neighs_triangular i j sz =
     (if 0 < i \<and> j \<le> i - 1 then [(i - 1, j)] else []) @
     (if i + 1 < sz \<and> j \<le> i + 1 then [(i + 1, j)] else []) @
     (if 0 < j \<and> j - 1 \<le> i then [(i, j - 1)] else []) @
     (if j + 1 < sz \<and> j + 1 \<le> i then [(i, j + 1)] else [])"

definition pixel_neighs :: "nat \<Rightarrow> nat \<Rightarrow> nat \<Rightarrow> nat \<Rightarrow> (nat \<times> nat) list" where
  "pixel_neighs i j w h =
     (if 0 < i then [(i - 1, j)] else []) @
     (if i + 1 < w then [(i + 1, j)] else []) @
     (if 0 < j then [(i, j - 1)] else []) @
     (if j + 1 < h then [(i, j + 1)] else [])"

definition product_range :: "nat \<Rightarrow> nat \<Rightarrow> (nat \<times> nat) list" where
  \<comment> \<open>\<^verbatim>\<open>itertools.product(range(m), range(n))\<close>\<close>
  "product_range m n = concat (map (\<lambda>i. map (\<lambda>j. (i, j)) [0..<n]) [0..<m])"

definition lower_range :: "nat \<Rightarrow> (nat \<times> nat) list" where
  \<comment> \<open>the pairs of \<open>product_range n n\<close> that pass the filter \<^verbatim>\<open>if i >= j\<close>\<close>
  "lower_range n = filter (\<lambda>(i, j). j \<le> i) (product_range n n)"

definition tri_index :: "nat \<Rightarrow> nat \<Rightarrow> nat" where
  \<comment> \<open>\<^verbatim>\<open>int((a * (a + 1) / 2)) + b\<close>; the product is even, the division is exact\<close>
  "tri_index a b = a * (a + 1) div 2 + b"

definition init_graph :: "bool \<Rightarrow> nat \<Rightarrow> nat \<Rightarrow> graph" where
  \<comment> \<open>\<open>s0\<close> and \<open>s1\<close> are \<^verbatim>\<open>size[0]\<close> and \<^verbatim>\<open>size[1]\<close>\<close>
  "init_graph triangular s0 s1 =
     (if triangular then
        \<lparr>pixels = map (\<lambda>(i, j). Some [i * s0 + j]) (lower_range s0),
         neighs = map (\<lambda>(i, j). Some (remdups
                    (map (\<lambda>(a, b). tri_index a b) (pixel_neighs_triangular i j s0))))
                    (lower_range s0),
         draws = 0\<rparr>
      else
        \<lparr>pixels = map (\<lambda>(i, j). Some [i * s1 + j]) (product_range s0 s1),
         neighs = map (\<lambda>(i, j). Some (remdups
                    (map (\<lambda>(a, b). a * s1 + b) (pixel_neighs i j s0 s1))))
                    (product_range s0 s1),
         draws = 0\<rparr>)"

definition init_start :: "bool \<Rightarrow> nat \<Rightarrow> nat \<Rightarrow> nat" where
  "init_start triangular s0 s1 = (if triangular then s0 * (s0 + 1) div 2 else s0 * s1)"

definition alive_count :: "graph \<Rightarrow> nat" where
  \<comment> \<open>\<^verbatim>\<open>sum((serp is not None for serp in pixels))\<close>\<close>
  "alive_count g = length (filter (\<lambda>p. p \<noteq> None) (pixels g))"

definition aggregate :: "real list \<Rightarrow> nat list \<Rightarrow> real" where
  "aggregate U ps =
     (if length ps = 1 then U ! (ps ! 0) else sum_list (map (\<lambda>p. U ! p) ps))"

definition set_remove :: "nat \<Rightarrow> nat list \<Rightarrow> error + nat list" where
  \<comment> \<open>\<^verbatim>\<open>s.remove(x)\<close>\<close>
  "set_remove x s = (if x \<in> set s then Inr (removeAll x s) else Inl KeyError)"

definition set_update :: "nat list \<Rightarrow> nat list \<Rightarrow> nat list" where
  \<comment> \<open>\<^verbatim>\<open>s.update(t)\<close>\<close>
  "set_update s t = s @ filter (\<lambda>x. x \<notin> set s) t"

fun rewire :: "nat \<Rightarrow> nat \<Rightarrow> nat list \<Rightarrow> nat list option list \<Rightarrow>
    error + nat list option list" where
  \<comment> \<open>the loop \<^verbatim>\<open>for nneigh in neighs[min_neigh]\<close>\<close>
  "rewire serp mn [] nb = Inr nb"
| "rewire serp mn (z # zs) nb =
     (if length nb \<le> z then Inl IndexError
      else case nb ! z of
        None \<Rightarrow> Inl AttributeError
      | Some nz \<Rightarrow>
          (case set_remove mn nz of
             Inl e \<Rightarrow> Inl e
           | Inr nz' \<Rightarrow> rewire serp mn zs (nb[z := Some (List.insert serp nz')])))"

definition merge :: "nat \<Rightarrow> nat \<Rightarrow> graph \<Rightarrow> error + graph" where
  "merge serp mn g =
     (if \<not> (serp < length (pixels g) \<and> mn < length (pixels g) \<and>
             serp < length (neighs g) \<and> mn < length (neighs g))
      then Inl IndexError
      else case pixels g ! serp of None \<Rightarrow> Inl ValueError | Some ps \<Rightarrow>
       (case pixels g ! mn of None \<Rightarrow> Inl ValueError | Some qs \<Rightarrow>
       (case neighs g ! serp of None \<Rightarrow> Inl AttributeError | Some ns \<Rightarrow>
       (case set_remove mn ns of Inl e \<Rightarrow> Inl e | Inr ns' \<Rightarrow>
       (case (neighs g)[serp := Some ns'] ! mn of None \<Rightarrow> Inl AttributeError | Some ms \<Rightarrow>
       (case set_remove serp ms of Inl e \<Rightarrow> Inl e | Inr ms' \<Rightarrow>
       (case rewire serp mn ms'
               ((neighs g)[serp := Some ns', mn := Some ms',
                           serp := Some (set_update ns' ms')]) of
          Inl e \<Rightarrow> Inl e
        | Inr nb \<Rightarrow>
            Inr (g\<lparr>pixels := (pixels g)[serp := Some (ps @ qs), mn := None],
                   neighs := nb[mn := None]\<rparr>))))))))"

definition merge_predicate :: "real \<Rightarrow> real \<Rightarrow> real \<Rightarrow> real \<Rightarrow> bool" where
  \<comment> \<open>\<^verbatim>\<open>thresh or minthresh\<close>\<close>
  "merge_predicate threshold minthreshold a b =
     ((a < threshold \<and> b < threshold) \<or> (a < minthreshold \<or> b < minthreshold))"

definition expand :: "rng \<Rightarrow> nat \<Rightarrow> graph \<Rightarrow> error + graph" where
  \<comment> \<open>the branch under \<^verbatim>\<open>if thresh or minthresh\<close>: choose where to expand, then merge;
      \<^verbatim>\<open>_choice\<close> raises \<^verbatim>\<open>IndexError\<close> on an empty sequence\<close>
  "expand r serp g =
     (if length (neighs g) \<le> serp then Inl IndexError
      else case neighs g ! serp of
        None \<Rightarrow> Inl TypeError
      | Some ns \<Rightarrow>
          if ns = [] then Inl IndexError
          else merge serp (ns ! (picks r (draws g) mod length ns))
                 (g\<lparr>draws := draws g + 1\<rparr>))"

definition visit :: "real list \<Rightarrow> real list \<Rightarrow> real \<Rightarrow> real \<Rightarrow> rng \<Rightarrow> nat \<Rightarrow> graph \<Rightarrow>
    error + graph" where
  \<comment> \<open>the body of \<^verbatim>\<open>for serp in ...\<close>\<close>
  "visit U V threshold minthreshold r serp g =
     (if length (pixels g) \<le> serp then Inl IndexError
      else case pixels g ! serp of
        None \<Rightarrow> Inr g
      | Some ps \<Rightarrow>
          if merge_predicate threshold minthreshold (aggregate U ps) (aggregate V ps)
          then expand r serp g
          else Inr g)"

fun visit_all :: "real list \<Rightarrow> real list \<Rightarrow> real \<Rightarrow> real \<Rightarrow> rng \<Rightarrow> nat list \<Rightarrow> graph \<Rightarrow>
    error + graph" where
  "visit_all U V threshold minthreshold r [] g = Inr g"
| "visit_all U V threshold minthreshold r (serp # rest) g =
     (case visit U V threshold minthreshold r serp g of
        Inl e \<Rightarrow> Inl e
      | Inr g' \<Rightarrow> visit_all U V threshold minthreshold r rest g')"


subsection \<open>Basic facts about one merge and one visit\<close>

lemma filter_len_update:
  assumes "i < length xs"
  shows "length (filter P (xs[i := v])) + (if P (xs ! i) then 1 else 0) =
         length (filter P xs) + (if P v then 1 else 0)"
proof -
  have old: "xs = take i xs @ xs ! i # drop (Suc i) xs"
    using assms by (rule id_take_nth_drop)
  have new: "xs[i := v] = take i xs @ v # drop (Suc i) xs"
    using assms by (rule upd_conv_take_nth_drop)
  have "length (filter P xs) = length (filter P (take i xs @ xs ! i # drop (Suc i) xs))"
    using old by simp
  then show ?thesis unfolding new by simp
qed

lemma set_remove_Inr: "set_remove x s = Inr s' \<Longrightarrow> x \<in> set s \<and> s' = removeAll x s"
  by (auto simp: set_remove_def split: if_splits)

lemma rewire_length: "rewire serp mn zs nb = Inr nb' \<Longrightarrow> length nb' = length nb"
  by (induction zs arbitrary: nb) (auto split: if_splits option.splits sum.splits)

lemma merge_Inr:
  assumes "merge serp mn g = Inr g'"
  shows "\<exists>ps qs. serp < length (pixels g) \<and> mn < length (pixels g) \<and> serp \<noteq> mn \<and>
           pixels g ! serp = Some ps \<and> pixels g ! mn = Some qs \<and>
           pixels g' = (pixels g)[serp := Some (ps @ qs), mn := None] \<and>
           draws g' = draws g \<and> length (neighs g') = length (neighs g)"
  using assms unfolding merge_def
  by (auto split: if_splits option.splits sum.splits dest!: set_remove_Inr rewire_length)

lemma merge_alive_count:
  assumes "merge serp mn g = Inr g'"
  shows "alive_count g' + 1 = alive_count g"
proof -
  from merge_Inr[OF assms] obtain ps qs where
    s: "serp < length (pixels g)" and m: "mn < length (pixels g)" and ne: "serp \<noteq> mn" and
    ps: "pixels g ! serp = Some ps" and qs: "pixels g ! mn = Some qs" and
    px: "pixels g' = (pixels g)[serp := Some (ps @ qs), mn := None]"
    by blast
  let ?P = "\<lambda>p::nat list option. p \<noteq> None"
  let ?xs = "(pixels g)[serp := Some (ps @ qs)]"
  have a: "length (filter ?P ?xs) = length (filter ?P (pixels g))"
    using filter_len_update[OF s, of ?P "Some (ps @ qs)"] ps by simp
  have "mn < length ?xs" using m by simp
  from filter_len_update[OF this, of ?P None]
  have "length (filter ?P (?xs[mn := None])) + 1 = length (filter ?P ?xs)"
    using ne qs by simp
  then show ?thesis unfolding alive_count_def px using a by simp
qed

lemma visit_cases:
  assumes "visit U V threshold minthreshold r serp g = Inr g'"
  shows "g' = g \<or>
         (alive_count g' + 1 = alive_count g \<and> draws g' = draws g + 1)"
proof (cases "g' = g")
  case True
  then show ?thesis by simp
next
  case False
  with assms obtain mn where mg: "merge serp mn (g\<lparr>draws := draws g + 1\<rparr>) = Inr g'"
    unfolding visit_def expand_def by (auto split: if_splits option.splits)
  from merge_alive_count[OF mg] merge_Inr[OF mg] show ?thesis
    by (auto simp: alive_count_def)
qed

lemma visit_all_count:
  "visit_all U V threshold minthreshold r xs g = Inr g' \<Longrightarrow>
   alive_count g' + draws g' = alive_count g + draws g \<and> draws g \<le> draws g'"
proof (induction xs arbitrary: g)
  case Nil
  then show ?case by simp
next
  case (Cons x xs)
  then obtain g1 where v: "visit U V threshold minthreshold r x g = Inr g1"
    and rest: "visit_all U V threshold minthreshold r xs g1 = Inr g'"
    by (auto split: sum.splits)
  from visit_cases[OF v] Cons.IH[OF rest] show ?case by auto
qed

lemma visit_all_le:
  "visit_all U V threshold minthreshold r xs g = Inr g' \<Longrightarrow> alive_count g' \<le> alive_count g"
  using visit_all_count by fastforce

subsection \<open>The pass loop and the outputs\<close>

function run_passes ::
  "nat \<Rightarrow> real list \<Rightarrow> real list \<Rightarrow> real \<Rightarrow> real \<Rightarrow> rng \<Rightarrow> nat \<Rightarrow> graph \<Rightarrow> nat \<Rightarrow> nat \<Rightarrow>
   error + (graph \<times> nat)" where
  \<comment> \<open>\<^verbatim>\<open>while current_existent != previous_existent\<close>, with the pass counter \<open>i\<close>;
      \<^verbatim>\<open>print_iteration\<close> divides by \<open>start\<close>\<close>
  "run_passes start U V threshold minthreshold r i g previous_existent current_existent =
     (if current_existent = previous_existent then Inr (g, i)
      else if start = 0 then Inl ZeroDivisionError
      else case visit_all U V threshold minthreshold r (perms r i) g of
        Inl e \<Rightarrow> Inl e
      | Inr g' \<Rightarrow>
          run_passes start U V threshold minthreshold r (i + 1) g'
            current_existent (alive_count g'))"
  by pat_completeness auto
termination
proof (relation "measure (\<lambda>(start, U, V, threshold, minthreshold, r, i, g, prev, cur).
         4 * alive_count g + 2 * (if cur = alive_count g then 0 else 1) +
         (if cur = prev then 0 else 1))", goal_cases)
  case 1
  show ?case by simp
next
  case (2 cur prev start U V threshold minthreshold r i g g')
  from visit_all_le[OF 2(3)] 2(1) show ?case by (auto split: if_splits)
qed

declare run_passes.simps [simp del]

definition fill_region :: "nat list \<Rightarrow> real list \<Rightarrow> real list" where
  \<comment> \<open>\<^verbatim>\<open>U[serp] = _np.sum(U[serp]) * 1. / len(serp)\<close>\<close>
  "fill_region serp U =
     (let m = sum_list (map (\<lambda>p. U ! p) serp) * 1 / real (length serp)
      in fold (\<lambda>p x. x[p := m]) serp U)"

definition alive_regions :: "graph \<Rightarrow> nat list list" where
  \<comment> \<open>\<^verbatim>\<open>(p for p in pixels if p is not None)\<close>\<close>
  "alive_regions g = map the (filter (\<lambda>p. p \<noteq> None) (pixels g))"

definition tril :: "nat \<Rightarrow> real list \<Rightarrow> nat \<Rightarrow> nat \<Rightarrow> real" where
  \<comment> \<open>the entry \<open>(i, j)\<close> of \<^verbatim>\<open>_np.tril(U)\<close>, \<open>U\<close> an \<open>n\<close> by \<open>n\<close> matrix\<close>
  "tril n U i j = (if j \<le> i then U ! (i * n + j) else 0)"

definition symmetrise :: "nat \<Rightarrow> real list \<Rightarrow> real list" where
  \<comment> \<open>\<^verbatim>\<open>tril(U) + transpose(tril(U)) - diag(diag(tril(U)))\<close>\<close>
  "symmetrise n U =
     map (\<lambda>k. tril n U (k div n) (k mod n) + tril n U (k mod n) (k div n) -
               (if k div n = k mod n then tril n U (k div n) (k div n) else 0))
       [0..<n * n]"

definition log_ratio_tril :: "nat \<Rightarrow> real list \<Rightarrow> real list \<Rightarrow> fval list" where
  \<comment> \<open>\<^verbatim>\<open>D = zeros_like(Bmod); D[trili] = V[trili] * 1. / U[trili];
      D[trili] = log2(D[trili])\<close>, where \<^verbatim>\<open>trili\<close> are the positions with
      \<open>j \<le> i\<close> of an \<open>n\<close> by \<open>n\<close> matrix\<close>
  "log_ratio_tril n U V =
     map (\<lambda>k. if k mod n \<le> k div n then flog2 (ratio (V ! k) (U ! k)) else Fin 0)
       [0..<n * n]"

definition log_ratio :: "real list \<Rightarrow> real list \<Rightarrow> fval list" where
  \<comment> \<open>\<^verbatim>\<open>D = V * 1. / U; D = log2(D)\<close>\<close>
  "log_ratio U V = map (\<lambda>(v, u). flog2 (ratio v u)) (zip V U)"

definition serpentin_iteration ::
  "ndarray \<Rightarrow> ndarray \<Rightarrow> real \<Rightarrow> real \<Rightarrow> bool \<Rightarrow> rng \<Rightarrow> error + (ndarray \<times> ndarray \<times> farray)" where
  "serpentin_iteration A B threshold minthreshold triangular r =
     (if \<not> check_shapes triangular A B then Inl ValueError
      else if \<not> minthreshold < threshold then Inl ValueError
      else
        let s0 = shape A ! 0; s1 = shape A ! 1;
            start = init_start triangular s0 s1
        in case run_passes start (cells A) (cells B) threshold minthreshold r 0
                  (init_graph triangular s0 s1) 0 1 of
             Inl e \<Rightarrow> Inl e
           | Inr (g, i) \<Rightarrow>
               if start = 0 then Inl ZeroDivisionError
               else
                 let U = fold fill_region (alive_regions g) (cells A);
                     V = fold fill_region (alive_regions g) (cells B)
                 in if triangular then
                      Inr (\<lparr>shape = [s0, s1], cells = symmetrise s0 U\<rparr>,
                           \<lparr>shape = [s0, s1], cells = symmetrise s0 V\<rparr>,
                           \<lparr>fshape = [s0, s1], fcells = log_ratio_tril s0 U V\<rparr>)
                    else
                      Inr (\<lparr>shape = [s0, s1], cells = U\<rparr>,
                           \<lparr>shape = [s0, s1], cells = V\<rparr>,
                           \<lparr>fshape = [s0, s1], fcells = log_ratio U V\<rparr>))"

subsection \<open>The trial driver\<close>

type_synonym trial = "ndarray \<times> ndarray \<times> farray"

type_synonym totals = "real list \<times> real list \<times> fval list"

fun add_trial :: "totals \<Rightarrow> trial \<Rightarrow> totals" where
  \<comment> \<open>\<^verbatim>\<open>sK = sK + Kt; sA = sA + At; sB = sB + Bt\<close>\<close>
  "add_trial (sA, sB, sK) (At, Bt, Kt) =
     (map (\<lambda>(x, y). x + y) (zip sA (cells At)),
      map (\<lambda>(x, y). x + y) (zip sB (cells Bt)),
      map (\<lambda>(x, y). fadd x y) (zip sK (fcells Kt)))"

fun accumulate :: "(error + trial) list \<Rightarrow> totals \<Rightarrow> error + totals" where
  \<comment> \<open>the sequential loop \<^verbatim>\<open>for _ in range(iterations)\<close>: run a trial, add its
      result; a trial that raises ends the loop\<close>
  "accumulate [] acc = Inr acc"
| "accumulate (t # ts) acc =
     (case t of
        Inl e \<Rightarrow> Inl e
      | Inr res \<Rightarrow> accumulate ts (add_trial acc res))"

fun pool_map :: "(error + trial) list \<Rightarrow> error + trial list" where
  \<comment> \<open>\<^verbatim>\<open>p.map(_serpentin_iteration_mp, iterator)\<close>: the results of all trials in
      order, or the exception of a trial that raised (which one, when several raise,
      depends on the scheduling; the model takes the first in order)\<close>
  "pool_map [] = Inr []"
| "pool_map (t # ts) =
     (case t of
        Inl e \<Rightarrow> Inl e
      | Inr res \<Rightarrow> (case pool_map ts of Inl e \<Rightarrow> Inl e | Inr rest \<Rightarrow> Inr (res # rest)))"

definition serpentin_binning ::
  "ndarray \<Rightarrow> ndarray \<Rightarrow> real \<Rightarrow> real \<Rightarrow> int \<Rightarrow> bool \<Rightarrow> int \<Rightarrow> (nat \<Rightarrow> rng) \<Rightarrow>
   error + (farray \<times> farray \<times> farray)" where
  \<comment> \<open>\<open>rs x\<close> is the random source of trial \<open>x\<close>. With \<open>1 < parallel\<close> a pool of
      worker processes maps the trials and the results are added afterwards; otherwise
      the trials are run and added one after the other. The scheduling inside the pool
      is not modelled.\<close>
  "serpentin_binning A B threshold minthreshold iterations triangular parallel rs =
     (if \<not> check_shapes triangular A B then Inl ValueError
      else if \<not> minthreshold < threshold then Inl ValueError
      else
        let zeros = replicate (length (cells A)) 0;
            trials = map (\<lambda>x. serpentin_iteration A B threshold minthreshold triangular (rs x))
                       [0..<nat iterations];
            totals = (if 1 < parallel
                    then (case pool_map trials of
                            Inl e \<Rightarrow> Inl e
                          | Inr res \<Rightarrow>
                              Inr (fold (\<lambda>r acc. add_trial acc r) res
                                     (zeros, zeros, map Fin zeros)))
                    else accumulate trials (zeros, zeros, map Fin zeros))
        in case totals of
             Inl e \<Rightarrow> Inl e
           | Inr (sA, sB, sK) \<Rightarrow>
               Inr (\<lparr>fshape = shape A, fcells = map (\<lambda>x. fdiv_int (Fin x) iterations) sA\<rparr>,
                    \<lparr>fshape = shape A, fcells = map (\<lambda>x. fdiv_int (Fin x) iterations) sB\<rparr>,
                    \<lparr>fshape = shape A, fcells = map (\<lambda>x. fdiv_int x iterations) sK\<rparr>))"

text \<open>
  \<open>average\<close> names the last step of \<^verbatim>\<open>serpentin_binning\<close>, the division of the
  three sums by \<^verbatim>\<open>iterations\<close>.
\<close>

definition average :: "ndarray \<Rightarrow> int \<Rightarrow> error + totals \<Rightarrow> error + (farray \<times> farray \<times> farray)" where
  "average A iterations t =
     (case t of
        Inl e \<Rightarrow> Inl e
      | Inr (sA, sB, sK) \<Rightarrow>
          Inr (\<lparr>fshape = shape A, fcells = map (\<lambda>x. fdiv_int (Fin x) iterations) sA\<rparr>,
               \<lparr>fshape = shape A, fcells = map (\<lambda>x. fdiv_int (Fin x) iterations) sB\<rparr>,
               \<lparr>fshape = shape A, fcells = map (\<lambda>x. fdiv_int x iterations) sK\<rparr>))"

subsection \<open>The pixel universe and the members of the alive regions\<close>

text \<open>
  \<open>pixel_universe\<close> lists the positions, in the flattened matrices, of the pixels a
  trial works on: every cell, or in triangular mode the cells with \<open>j \<le> i\<close>.
  \<open>members\<close> lists the pixels of all alive regions, region after region; \<open>covers\<close>
  says that this list has no repetition (no pixel in two regions, or twice in one) and
  holds exactly the universe.
\<close>

definition pixel_universe :: "bool \<Rightarrow> nat \<Rightarrow> nat \<Rightarrow> nat list" where
  "pixel_universe triangular s0 s1 =
     (if triangular then map (\<lambda>(i, j). i * s0 + j) (lower_range s0)
      else map (\<lambda>(i, j). i * s1 + j) (product_range s0 s1))"

definition members :: "graph \<Rightarrow> nat list" where
  "members g = concat (alive_regions g)"

definition covers :: "nat list \<Rightarrow> graph \<Rightarrow> bool" where
  "covers P g = (distinct (members g) \<and> set (members g) = set P)"

definition weight :: "nat list option \<Rightarrow> nat multiset" where
  "weight p = (case p of None \<Rightarrow> {#} | Some ps \<Rightarrow> mset ps)"

subsection \<open>The neighbour relation\<close>

text \<open>
  \<open>nbrs g k\<close> is the neighbour set of region \<open>k\<close> (empty for a dead region).
  \<open>graph_ok\<close> collects what the merge step relies on: the two arrays have the same
  length and the same dead entries, a neighbour list has no repetition (it stands for
  a set), and the neighbour relation is symmetric, irreflexive and between alive
  regions.
\<close>

definition nbrs :: "graph \<Rightarrow> nat \<Rightarrow> nat set" where
  "nbrs g k = (case neighs g ! k of None \<Rightarrow> {} | Some ns \<Rightarrow> set ns)"

definition graph_ok :: "graph \<Rightarrow> bool" where
  "graph_ok g =
     (length (neighs g) = length (pixels g) \<and>
      (\<forall>k<length (pixels g). (pixels g ! k = None) = (neighs g ! k = None)) \<and>
      (\<forall>k<length (pixels g). \<forall>ns. neighs g ! k = Some ns \<longrightarrow> distinct ns) \<and>
      (\<forall>k<length (pixels g). \<forall>m\<in>nbrs g k. m < length (pixels g) \<and> m \<noteq> k \<and> k \<in> nbrs g m))"

subsection \<open>The three returned arrays\<close>

text \<open>
  \<open>trial_outputs\<close> names the last step of \<^verbatim>\<open>serpentin_iteration\<close>, from the
  mean-filled working arrays to the returned triple.
\<close>

definition trial_outputs :: "bool \<Rightarrow> nat \<Rightarrow> nat \<Rightarrow> real list \<Rightarrow> real list \<Rightarrow>
    ndarray \<times> ndarray \<times> farray" where
  "trial_outputs triangular s0 s1 U V =
     (if triangular then
        (\<lparr>shape = [s0, s1], cells = symmetrise s0 U\<rparr>,
         \<lparr>shape = [s0, s1], cells = symmetrise s0 V\<rparr>,
         \<lparr>fshape = [s0, s1], fcells = log_ratio_tril s0 U V\<rparr>)
      else
        (\<lparr>shape = [s0, s1], cells = U\<rparr>,
         \<lparr>shape = [s0, s1], cells = V\<rparr>,
         \<lparr>fshape = [s0, s1], fcells = log_ratio U V\<rparr>))"

subsection \<open>Evaluation on concrete inputs\<close>

lemma check_shapes_eval:
  "check_shapes triangular \<lparr>shape = [h, w], cells = c\<rparr> \<lparr>shape = [h', w'], cells = c'\<rparr> =
     (h = h' \<and> w = w' \<and> (triangular \<longrightarrow> h = w))"
  unfolding check_shapes_def by (auto simp: min_def max_def)

lemmas trial_eval =
  serpentin_iteration_def check_shapes_eval init_graph_def init_start_def product_range_def
  lower_range_def pixel_neighs_def pixel_neighs_triangular_def tri_index_def
  run_passes.simps visit_def expand_def merge_def set_remove_def set_update_def
  merge_predicate_def aggregate_def alive_count_def const_rng_def
  fill_region_def alive_regions_def log_ratio_def log_ratio_tril_def symmetrise_def
  tril_def ratio_def upt_rec Let_def

section \<open>Invariants of the region graph\<close>

subsection \<open>Rules for the pass loop\<close>

lemma visit_all_invariant:
  assumes step: "\<And>x g g'. I g \<Longrightarrow> visit U V threshold minthreshold r x g = Inr g' \<Longrightarrow> I g'"
  shows "I g \<Longrightarrow> visit_all U V threshold minthreshold r xs g = Inr g' \<Longrightarrow> I g'"
proof (induction xs arbitrary: g)
  case Nil
  then show ?case by simp
next
  case (Cons x xs)
  from Cons.prems(2) obtain g1 where v: "visit U V threshold minthreshold r x g = Inr g1"
    and rest: "visit_all U V threshold minthreshold r xs g1 = Inr g'"
    by (auto split: sum.splits)
  from step[OF Cons.prems(1) v] rest Cons.IH show ?case by blast
qed

lemma run_passes_stop:
  "run_passes start U V threshold minthreshold r i g prev prev = Inr (g, i)"
  by (simp add: run_passes.simps)

lemma run_passes_step:
  assumes "run_passes start U V threshold minthreshold r i g prev cur = Inr (g', i')"
    and "cur \<noteq> prev"
  shows "start \<noteq> 0 \<and> (\<exists>g1. visit_all U V threshold minthreshold r (perms r i) g = Inr g1 \<and>
           run_passes start U V threshold minthreshold r (i + 1) g1 cur (alive_count g1) =
             Inr (g', i'))"
  using assms
  by (auto simp: run_passes.simps[of start U V threshold minthreshold r i g prev cur]
           split: sum.splits if_splits)

lemma run_passes_induct:
  fixes start :: nat
  assumes step: "\<And>i g prev cur.
      (\<And>g'. cur \<noteq> prev \<Longrightarrow> start \<noteq> 0 \<Longrightarrow>
         visit_all U V threshold minthreshold r (perms r i) g = Inr g' \<Longrightarrow>
         P (i + 1) g' cur (alive_count g')) \<Longrightarrow> P i g prev cur"
  shows "P i g prev cur"
proof -
  have "s = start \<Longrightarrow> u = U \<Longrightarrow> v = V \<Longrightarrow> t = threshold \<Longrightarrow> m = minthreshold \<Longrightarrow> r' = r \<Longrightarrow>
        P i g prev cur" for s :: nat and u v :: "real list" and t m :: real and r' :: rng
  proof (induction s u v t m r' i g prev cur rule: run_passes.induct)
    case (1 s u v t m r' i g prev cur)
    show ?case
    proof (rule step)
      fix g'
      assume "cur \<noteq> prev" "start \<noteq> 0"
        "visit_all U V threshold minthreshold r (perms r i) g = Inr g'"
      with "1.IH"[of g'] "1.prems" show "P (i + 1) g' cur (alive_count g')" by simp
    qed
  qed
  then show ?thesis by simp
qed

lemma run_passes_invariant:
  assumes step: "\<And>x g g'. I g \<Longrightarrow> visit U V threshold minthreshold r x g = Inr g' \<Longrightarrow> I g'"
  shows "I g \<Longrightarrow> run_passes start U V threshold minthreshold r i g prev cur = Inr (g', i') \<Longrightarrow> I g'"
proof (induction i g prev cur rule: run_passes_induct[where start = start and U = U and V = V
      and threshold = threshold and minthreshold = minthreshold and r = r])
  case (1 i g prev cur)
  show ?case
  proof (cases "cur = prev")
    case True
    with "1.prems" show ?thesis by (simp add: run_passes_stop)
  next
    case False
    from run_passes_step[OF "1.prems"(2) False] obtain g1 where
      s: "start \<noteq> 0" and
      p: "visit_all U V threshold minthreshold r (perms r i) g = Inr g1" and
      rest: "run_passes start U V threshold minthreshold r (i + 1) g1 cur (alive_count g1) = Inr (g', i')"
      by blast
    have "I g1"
    proof (rule visit_all_invariant[of I, OF _ "1.prems"(1) p])
      fix x h h'
      assume "I h" and "visit U V threshold minthreshold r x h = Inr h'"
      then show "I h'" by (rule step)
    qed
    from "1.IH"[OF False s p this rest] show ?thesis .
  qed
qed


subsection \<open>Coverage\<close>

lemma mset_members_aux:
  "mset (concat (map the (filter (\<lambda>p. p \<noteq> None) xs))) = sum_list (map weight xs)"
  by (induction xs) (auto simp: weight_def)

lemma mset_members: "mset (members g) = sum_list (map weight (pixels g))"
  unfolding members_def alive_regions_def by (rule mset_members_aux)

lemma sum_list_weight_update:
  assumes "i < length xs"
  shows "sum_list (map weight (xs[i := v])) + weight (xs ! i) = sum_list (map weight xs) + weight v"
proof -
  have old: "xs = take i xs @ xs ! i # drop (Suc i) xs"
    using assms by (rule id_take_nth_drop)
  have new: "xs[i := v] = take i xs @ v # drop (Suc i) xs"
    using assms by (rule upd_conv_take_nth_drop)
  have "sum_list (map weight xs) = sum_list (map weight (take i xs @ xs ! i # drop (Suc i) xs))"
    using old by simp
  then show ?thesis unfolding new by simp
qed

lemma merge_members:
  assumes "merge serp mn g = Inr g'"
  shows "mset (members g') = mset (members g)"
proof -
  from merge_Inr[OF assms] obtain ps qs where
    s: "serp < length (pixels g)" and m: "mn < length (pixels g)" and ne: "serp \<noteq> mn" and
    ps: "pixels g ! serp = Some ps" and qs: "pixels g ! mn = Some qs" and
    px: "pixels g' = (pixels g)[serp := Some (ps @ qs), mn := None]"
    by blast
  let ?xs = "(pixels g)[serp := Some (ps @ qs)]"
  have a: "sum_list (map weight ?xs) + mset ps = sum_list (map weight (pixels g)) + (mset ps + mset qs)"
    using sum_list_weight_update[OF s, of "Some (ps @ qs)"] ps by (simp add: weight_def)
  have "mn < length ?xs" using m by simp
  from sum_list_weight_update[OF this, of None]
  have b: "sum_list (map weight (?xs[mn := None])) + mset qs = sum_list (map weight ?xs)"
    using ne qs by (simp add: weight_def)
  from a b have "sum_list (map weight (?xs[mn := None])) + (mset qs + mset ps) =
     sum_list (map weight (pixels g)) + (mset ps + mset qs)"
    by (metis add.assoc)
  then have "sum_list (map weight (?xs[mn := None])) = sum_list (map weight (pixels g))"
    by (simp add: add.commute)
  then show ?thesis by (simp add: mset_members px)
qed

lemma covers_mset: "mset (members g') = mset (members g) \<Longrightarrow> covers P g \<Longrightarrow> covers P g'"
  unfolding covers_def by (metis mset_eq_imp_distinct_iff mset_eq_setD)

lemma merge_covers: "covers P g \<Longrightarrow> merge serp mn g = Inr g' \<Longrightarrow> covers P g'"
  using covers_mset merge_members by blast

lemma members_draws [simp]: "members (g\<lparr>draws := d\<rparr>) = members g"
  by (simp add: members_def alive_regions_def)

lemma visit_members:
  "visit U V threshold minthreshold r serp g = Inr g' \<Longrightarrow> mset (members g') = mset (members g)"
  unfolding visit_def expand_def
  by (auto split: if_splits option.splits dest!: merge_members)

lemma visit_covers:
  "covers P g \<Longrightarrow> visit U V threshold minthreshold r serp g = Inr g' \<Longrightarrow> covers P g'"
  using covers_mset visit_members by blast

lemma product_range_Suc:
  "product_range (Suc m) n = product_range m n @ map (Pair m) [0..<n]"
  by (simp add: product_range_def)

lemma flat_index_range: "map (\<lambda>(i, j). i * n + j) (product_range m n) = [0..<m * n]"
proof (induction m)
  case 0
  then show ?case by (simp add: product_range_def)
next
  case (Suc m)
  have a: "map (\<lambda>j. m * n + j) [0..<n] = [m * n..<m * n + n]"
    using map_add_upt[of "m * n" n] by (simp add: add.commute)
  have "[0..<Suc m * n] = [0..<m * n + n]" by (simp add: add.commute)
  also have "\<dots> = [0..<m * n] @ [m * n..<m * n + n]"
    by (rule upt_add_eq_append) simp
  finally have b: "[0..<Suc m * n] = [0..<m * n] @ [m * n..<m * n + n]" .
  have "map (\<lambda>(i, j). i * n + j) (product_range (Suc m) n) =
        map (\<lambda>(i, j). i * n + j) (product_range m n) @ map (\<lambda>j. m * n + j) [0..<n]"
    by (simp add: product_range_Suc comp_def)
  then show ?case unfolding Suc a b .
qed

lemma set_product_range: "set (product_range m n) = {(i, j). i < m \<and> j < n}"
  by (auto simp: product_range_def)

lemma distinct_universe: "distinct (pixel_universe triangular s0 s1)"
proof -
  have "distinct (map (\<lambda>(i, j). i * n + j) (product_range m n))" for m n
    by (simp add: flat_index_range)
  then show ?thesis
    unfolding pixel_universe_def lower_range_def by (simp add: distinct_map_filter)
qed

lemma members_init: "members (init_graph triangular s0 s1) = pixel_universe triangular s0 s1"
proof -
  have "concat (map the (filter (\<lambda>p. p \<noteq> None) (map (\<lambda>(i, j). Some [f i j]) xs))) =
        map (\<lambda>(i, j). f i j) xs" for f :: "nat \<Rightarrow> nat \<Rightarrow> nat" and xs
    by (induction xs) auto
  then show ?thesis
    by (simp add: members_def alive_regions_def init_graph_def pixel_universe_def)
qed

lemma covers_init: "covers (pixel_universe triangular s0 s1) (init_graph triangular s0 s1)"
  by (simp add: covers_def members_init distinct_universe)

lemma set_universe:
  "set (pixel_universe triangular s0 s1) =
     (if triangular then {i * s0 + j | i j. j \<le> i \<and> i < s0}
      else {i * s1 + j | i j. i < s0 \<and> j < s1})"
  by (auto simp: pixel_universe_def lower_range_def set_product_range image_iff)

lemma weight_two:
  assumes "k < length xs" "k' < length xs" "k \<noteq> k'"
  shows "weight (xs ! k) + weight (xs ! k') \<subseteq># sum_list (map weight xs)"
proof -
  let ?ys = "xs[k := None]"
  have a: "sum_list (map weight ?ys) + weight (xs ! k) = sum_list (map weight xs)"
    using sum_list_weight_update[OF assms(1), of None] by (simp add: weight_def)
  have "k' < length ?ys" using assms(2) by simp
  from sum_list_weight_update[OF this, of None]
  have b: "sum_list (map weight (?ys[k' := None])) + weight (xs ! k') = sum_list (map weight ?ys)"
    using assms(3) by (simp add: weight_def)
  have "sum_list (map weight xs) =
        sum_list (map weight (?ys[k' := None])) + (weight (xs ! k) + weight (xs ! k'))"
    using a b by (metis add.assoc add.commute)
  then show ?thesis by simp
qed

lemma covers_unique:
  assumes c: "covers P g" and p: "p \<in> set P"
  shows "\<exists>!k. k < length (pixels g) \<and> (\<exists>ps. pixels g ! k = Some ps \<and> p \<in> set ps)"
proof -
  from c p have "p \<in> set (members g)" by (simp add: covers_def)
  then obtain x where x: "x \<in> set (pixels g)" "x \<noteq> None" "p \<in> set (the x)"
    by (auto simp: members_def alive_regions_def)
  then obtain k where k: "k < length (pixels g)" "pixels g ! k = x"
    by (auto simp: in_set_conv_nth)
  have ex: "k < length (pixels g) \<and> (\<exists>ps. pixels g ! k = Some ps \<and> p \<in> set ps)"
    using x k by auto
  have uniq: "k' = k" if k': "k' < length (pixels g)" "pixels g ! k' = Some ps'" "p \<in> set ps'"
    for k' ps'
  proof (rule ccontr)
    assume ne: "k' \<noteq> k"
    from weight_two[OF k(1) k'(1)] ne
    have "weight (pixels g ! k) + weight (pixels g ! k') \<subseteq># mset (members g)"
      by (auto simp: mset_members)
    then have "count (weight (pixels g ! k) + weight (pixels g ! k')) p \<le> count (mset (members g)) p"
      by (rule mset_subset_eq_count)
    moreover have "count (weight (pixels g ! k)) p \<ge> 1" "count (weight (pixels g ! k')) p \<ge> 1"
      using ex k' by (auto simp: weight_def)
    moreover have "count (mset (members g)) p \<le> 1"
      using c by (simp add: covers_def distinct_count_atmost_1)
    ultimately show False by simp
  qed
  show ?thesis using ex uniq by blast
qed

lemma covers_subset:
  assumes c: "covers P g" and k: "k < length (pixels g)" "pixels g ! k = Some ps"
  shows "set ps \<subseteq> set P \<and> distinct ps"
proof -
  have "Some ps \<in> set (filter (\<lambda>p. p \<noteq> None) (pixels g))"
    using k by (auto simp: in_set_conv_nth)
  then have "ps \<in> set (alive_regions g)"
    unfolding alive_regions_def by force
  then show ?thesis using c unfolding covers_def members_def
    by (auto simp: distinct_concat_iff)
qed

section \<open>The merge predicate\<close>

lemma aggregate_sum: "aggregate U ps = sum_list (map (\<lambda>p. U ! p) ps)"
  by (cases ps) (auto simp: aggregate_def)

lemma expand_changes: "expand r serp g = Inr g' \<Longrightarrow> alive_count g' + 1 = alive_count g"
  unfolding expand_def
  by (auto split: if_splits option.splits dest!: merge_alive_count simp: alive_count_def)

text \<open>
  Claim C4. A visited alive region whose members sum to \<open>a\<close> over \<open>A\<close> and to \<open>b\<close>
  over \<open>B\<close> attempts a merge if and only if
  \<open>(a < threshold \<and> b < threshold) \<or> a < minthreshold \<or> b < minthreshold\<close>: when the
  predicate holds the visit is the expansion step, which never returns the graph as it
  was (it raises, or one region is gone); when the predicate is false the visit returns
  the graph unchanged.
\<close>

theorem visit_merges_iff_predicate:
  assumes "serp < length (pixels g)" and "pixels g ! serp = Some ps"
  shows "let a = sum_list (map (\<lambda>p. U ! p) ps); b = sum_list (map (\<lambda>p. V ! p) ps) in
         ((a < threshold \<and> b < threshold) \<or> a < minthreshold \<or> b < minthreshold \<longrightarrow>
            visit U V threshold minthreshold r serp g = expand r serp g \<and>
            expand r serp g \<noteq> Inr g) \<and>
         (\<not> ((a < threshold \<and> b < threshold) \<or> a < minthreshold \<or> b < minthreshold) \<longrightarrow>
            visit U V threshold minthreshold r serp g = Inr g)"
proof -
  have "expand r serp g \<noteq> Inr g"
  proof
    assume "expand r serp g = Inr g"
    from expand_changes[OF this] show False by simp
  qed
  then show ?thesis using assms
    by (auto simp: visit_def merge_predicate_def aggregate_sum Let_def)
qed

text \<open>
  Witness for C4: the first pixel of a 1 by 2 grid, once with sums below the
  thresholds 40 and 10 (the visit is the expansion step) and once with a sum of 100
  (the visit changes nothing).
\<close>

theorem visit_merges_iff_predicate_witness:
  "(0::nat) < length (pixels (init_graph False 1 2)) \<and>
   pixels (init_graph False 1 2) ! 0 = Some [0] \<and>
   visit [1, 1] [1, 1] 40 10 (const_rng [0, 1] 0) 0 (init_graph False 1 2) =
     expand (const_rng [0, 1] 0) 0 (init_graph False 1 2) \<and>
   visit [100, 1] [100, 1] 40 10 (const_rng [0, 1] 0) 0 (init_graph False 1 2) =
     Inr (init_graph False 1 2)"
  using visit_merges_iff_predicate[of 0 "init_graph False 1 2" "[0]" "[1, 1]" "[1, 1]" 40 10
          "const_rng [0, 1] 0"]
        visit_merges_iff_predicate[of 0 "init_graph False 1 2" "[0]" "[100, 1]" "[100, 1]" 40 10
          "const_rng [0, 1] 0"]
  by (simp add: init_graph_def product_range_def)

section \<open>An isolated region that still satisfies the predicate\<close>

text \<open>
  Claim C1 says that a trial never raises once validation has passed, and that a region
  with an empty neighbour set is skipped. The code has no such guard:
  \<^verbatim>\<open>_choice(tuple(neighs[serp]))\<close> raises \<^verbatim>\<open>IndexError\<close> on the empty set. A 1 by 1
  matrix holding 0 fails so for every random source; a 2 by 2 matrix of ones fails
  when the first pass leaves two regions, the second pass merges them, and the third
  pass visits the single region, whose sums 4 are still below the threshold 40.
\<close>

theorem isolated_region_raises:
  "serpentin_iteration \<lparr>shape = [1, 1], cells = [0]\<rparr> \<lparr>shape = [1, 1], cells = [0]\<rparr> 40 10 False
     \<lparr>perms = (\<lambda>i. [0]), picks = p\<rparr> = Inl IndexError \<and>
   serpentin_iteration \<lparr>shape = [2, 2], cells = [1, 1, 1, 1]\<rparr>
     \<lparr>shape = [2, 2], cells = [1, 1, 1, 1]\<rparr> 40 10 False (const_rng [0, 1, 2, 3] 0) =
     Inl IndexError"
  by (simp add: trial_eval)

section \<open>Coverage of the pixel universe\<close>

text \<open>
  Claim C2. Every pixel of the pixel universe (all cells, or the cells with
  \<open>j \<le> i\<close> in triangular mode) belongs to exactly one alive region throughout a trial:
  the initial graph covers the universe; a merge and a visit keep coverage; the graph
  returned by the pass loop covers the universe; and coverage means that every pixel
  of the universe lies in exactly one alive region and that alive regions hold
  pixels of the universe only.
\<close>

theorem exactly_one_alive_region:
  "covers (pixel_universe triangular s0 s1) (init_graph triangular s0 s1) \<and>
   (covers P g \<and> merge serp mn g = Inr g1 \<longrightarrow> covers P g1) \<and>
   (covers P g \<and> visit U V threshold minthreshold r serp g = Inr g2 \<longrightarrow> covers P g2) \<and>
   (run_passes start U V threshold minthreshold r 0 (init_graph triangular s0 s1) 0 1 =
      Inr (g3, i3) \<longrightarrow> covers (pixel_universe triangular s0 s1) g3) \<and>
   (covers P g \<longrightarrow>
      (\<forall>p\<in>set P. \<exists>!k. k < length (pixels g) \<and> (\<exists>ps. pixels g ! k = Some ps \<and> p \<in> set ps)) \<and>
      (\<forall>k ps. k < length (pixels g) \<and> pixels g ! k = Some ps \<longrightarrow> set ps \<subseteq> set P)) \<and>
   set (pixel_universe triangular s0 s1) =
     (if triangular then {i * s0 + j | i j. j \<le> i \<and> i < s0}
      else {i * s1 + j | i j. i < s0 \<and> j < s1})"
proof -
  have loop: "covers (pixel_universe triangular s0 s1) g3"
    if "run_passes start U V threshold minthreshold r 0 (init_graph triangular s0 s1) 0 1 =
      Inr (g3, i3)"
  proof (rule run_passes_invariant[where I = "covers (pixel_universe triangular s0 s1)", OF _ covers_init that])
    fix x h h'
    assume "covers (pixel_universe triangular s0 s1) h"
      and "visit U V threshold minthreshold r x h = Inr h'"
    then show "covers (pixel_universe triangular s0 s1) h'" by (rule visit_covers)
  qed
  have uniq: "\<forall>p\<in>set P. \<exists>!k. k < length (pixels g) \<and> (\<exists>ps. pixels g ! k = Some ps \<and> p \<in> set ps)"
    if "covers P g"
    using covers_unique[OF that] by blast
  have sub: "\<forall>k ps. k < length (pixels g) \<and> pixels g ! k = Some ps \<longrightarrow> set ps \<subseteq> set P"
    if "covers P g"
    using covers_subset[OF that] by blast
  show ?thesis
  proof (intro conjI impI)
    show "covers (pixel_universe triangular s0 s1) (init_graph triangular s0 s1)"
      by (rule covers_init)
    show "covers P g1" if "covers P g \<and> merge serp mn g = Inr g1"
      using that merge_covers by blast
    show "covers P g2" if "covers P g \<and> visit U V threshold minthreshold r serp g = Inr g2"
      using that visit_covers by blast
    show "covers (pixel_universe triangular s0 s1) g3"
      if "run_passes start U V threshold minthreshold r 0 (init_graph triangular s0 s1) 0 1 =
      Inr (g3, i3)"
      using that by (rule loop)
    show "\<forall>p\<in>set P. \<exists>!k. k < length (pixels g) \<and> (\<exists>ps. pixels g ! k = Some ps \<and> p \<in> set ps)"
      if "covers P g" using that by (rule uniq)
    show "\<forall>k ps. k < length (pixels g) \<and> pixels g ! k = Some ps \<longrightarrow> set ps \<subseteq> set P"
      if "covers P g" using that by (rule sub)
    show "set (pixel_universe triangular s0 s1) =
     (if triangular then {i * s0 + j | i j. j \<le> i \<and> i < s0}
      else {i * s1 + j | i j. i < s0 \<and> j < s1})"
      by (rule set_universe)
  qed
qed


text \<open>
  Witness for C2: the 1 by 2 grid, whose two pixels are merged by the first visit.
\<close>

theorem exactly_one_alive_region_witness:
  "covers [0, 1] (init_graph False 1 2) \<and>
   merge 0 1 (init_graph False 1 2) =
     Inr \<lparr>pixels = [Some [0, 1], None], neighs = [Some [], None], draws = 0\<rparr> \<and>
   covers [0, 1] \<lparr>pixels = [Some [0, 1], None], neighs = [Some [], None], draws = 0\<rparr> \<and>
   visit [1, 1] [1, 1] 40 10 (const_rng [0, 1] 0) 0 (init_graph False 1 2) =
     Inr \<lparr>pixels = [Some [0, 1], None], neighs = [Some [], None], draws = 1\<rparr> \<and>
   covers [0, 1] \<lparr>pixels = [Some [0, 1], None], neighs = [Some [], None], draws = 1\<rparr> \<and>
   run_passes 2 [1, 1] [1, 1] 40 10 (const_rng [0, 1] 0) 0 (init_graph False 1 2) 0 1 =
     Inr (\<lparr>pixels = [Some [0, 1], None], neighs = [Some [], None], draws = 1\<rparr>, 1) \<and>
   covers (pixel_universe False 1 2)
     \<lparr>pixels = [Some [0, 1], None], neighs = [Some [], None], draws = 1\<rparr>"
proof -
  note inst = exactly_one_alive_region[of False 1 2 "[0, 1]" "init_graph False 1 2" 0 1
      "\<lparr>pixels = [Some [0, 1], None], neighs = [Some [], None], draws = 0\<rparr>"
      "[1, 1]" "[1, 1]" 40 10 "const_rng [0, 1] 0"
      "\<lparr>pixels = [Some [0, 1], None], neighs = [Some [], None], draws = 1\<rparr>"
      2 "\<lparr>pixels = [Some [0, 1], None], neighs = [Some [], None], draws = 1\<rparr>" 1]
  have c0: "covers [0, 1] (init_graph False 1 2)"
    by (simp add: covers_def members_def trial_eval)
  have m: "merge 0 1 (init_graph False 1 2) =
     Inr \<lparr>pixels = [Some [0, 1], None], neighs = [Some [], None], draws = 0\<rparr>"
    by (simp add: trial_eval)
  have v: "visit [1, 1] [1, 1] 40 10 (const_rng [0, 1] 0) 0 (init_graph False 1 2) =
     Inr \<lparr>pixels = [Some [0, 1], None], neighs = [Some [], None], draws = 1\<rparr>"
    by (simp add: trial_eval)
  have l: "run_passes 2 [1, 1] [1, 1] 40 10 (const_rng [0, 1] 0) 0 (init_graph False 1 2) 0 1 =
     Inr (\<lparr>pixels = [Some [0, 1], None], neighs = [Some [], None], draws = 1\<rparr>, 1)"
    by (simp add: trial_eval)
  from inst c0 m v l show ?thesis by blast
qed

subsection \<open>Enumeration of the pixels and the initial graph\<close>

lemma filter_le_upt: "m < n \<Longrightarrow> filter (\<lambda>j. j \<le> m) [0..<n] = [0..<Suc m]"
proof (induction n)
  case 0
  then show ?case by simp
next
  case (Suc n)
  show ?case
  proof (cases "m < n")
    case True
    with Suc.IH show ?thesis by simp
  next
    case False
    with Suc.prems have "m = n" by simp
    moreover have "filter (\<lambda>j. j \<le> n) [0..<n] = [0..<n]"
      by (rule filter_True) simp
    ultimately show ?thesis by simp
  qed
qed

lemma lower_rows_Suc:
  assumes "m < n"
  shows "filter (\<lambda>(i, j). j \<le> i) (product_range (Suc m) n) =
         filter (\<lambda>(i, j). j \<le> i) (product_range m n) @ map (Pair m) [0..<Suc m]"
proof -
  have "filter (\<lambda>(i, j). j \<le> i) (map (Pair m) [0..<n]) = map (Pair m) (filter (\<lambda>j. j \<le> m) [0..<n])"
    by (simp add: filter_map comp_def)
  then show ?thesis using filter_le_upt[OF assms] by (simp add: product_range_Suc)
qed

lemma tri_step: "Suc m * (Suc m + 1) div 2 = m * (m + 1) div 2 + Suc m"
proof -
  have "Suc m * (Suc m + 1) = Suc m * 2 + m * (m + 1)" by simp
  then have "Suc m * (Suc m + 1) div 2 = (Suc m * 2 + m * (m + 1)) div 2" by (rule arg_cong)
  also have "\<dots> = Suc m + m * (m + 1) div 2" by (rule div_mult_self3) simp
  finally show ?thesis by (simp only: add.commute)
qed

lemma tri_index_rows:
  "m \<le> n \<Longrightarrow>
   map (\<lambda>(i, j). tri_index i j) (filter (\<lambda>(i, j). j \<le> i) (product_range m n)) =
   [0..<m * (m + 1) div 2]"
proof (induction m)
  case 0
  then show ?case by (simp add: product_range_def)
next
  case (Suc m)
  let ?t = "m * (m + 1) div 2"
  have a: "map (\<lambda>j. ?t + j) [0..<Suc m] = [?t..<?t + Suc m]"
    using map_add_upt[of ?t "Suc m"] by (simp add: add.commute)
  have b: "[0..<?t + Suc m] = [0..<?t] @ [?t..<?t + Suc m]"
    by (rule upt_add_eq_append) simp
  from Suc.prems have lt: "m < n" and le: "m \<le> n" by simp_all
  have "map (\<lambda>(i, j). tri_index i j) (filter (\<lambda>(i, j). j \<le> i) (product_range (Suc m) n)) =
        map (\<lambda>(i, j). tri_index i j) (filter (\<lambda>(i, j). j \<le> i) (product_range m n)) @
        map (\<lambda>j. ?t + j) [0..<Suc m]"
    unfolding lower_rows_Suc[OF lt] by (simp add: comp_def tri_index_def)
  then show ?case unfolding Suc.IH[OF le] a tri_step b .
qed

lemma tri_index_lower_range: "map (\<lambda>(i, j). tri_index i j) (lower_range n) = [0..<n * (n + 1) div 2]"
  unfolding lower_range_def by (rule tri_index_rows) simp

lemma length_lower_range: "length (lower_range n) = n * (n + 1) div 2"
  using arg_cong[OF tri_index_lower_range, of length] by simp

lemma length_product_range: "length (product_range m n) = m * n"
  using arg_cong[OF flat_index_range[of n m], of length] by simp

lemma length_pixels_init: "length (pixels (init_graph triangular s0 s1)) = init_start triangular s0 s1"
  by (simp add: init_graph_def init_start_def length_lower_range length_product_range)

lemma length_neighs_init: "length (neighs (init_graph triangular s0 s1)) = init_start triangular s0 s1"
  by (simp add: init_graph_def init_start_def length_lower_range length_product_range)

lemma alive_count_init: "alive_count (init_graph triangular s0 s1) = init_start triangular s0 s1"
proof -
  have "filter (\<lambda>p. p \<noteq> None) (map (\<lambda>(i, j). Some (f i j)) xs) = map (\<lambda>(i, j). Some (f i j)) xs"
    for f :: "nat \<Rightarrow> nat \<Rightarrow> nat list" and xs
    by (induction xs) auto
  then show ?thesis
    using length_pixels_init[of triangular s0 s1]
    by (simp add: alive_count_def init_graph_def split: if_splits)
qed

subsection \<open>Dead regions stay dead; a pass without a merge changes nothing\<close>

lemma merge_dead:
  assumes "merge serp mn g = Inr g'"
  shows "length (pixels g') = length (pixels g) \<and> pixels g' ! mn = None \<and>
         (\<exists>ps. pixels g' ! serp = Some ps) \<and>
         (\<forall>k<length (pixels g). pixels g ! k = None \<longrightarrow> pixels g' ! k = None)"
proof -
  from merge_Inr[OF assms] obtain ps qs where
    s: "serp < length (pixels g)" and m: "mn < length (pixels g)" and ne: "serp \<noteq> mn" and
    ps: "pixels g ! serp = Some ps" and qs: "pixels g ! mn = Some qs" and
    px: "pixels g' = (pixels g)[serp := Some (ps @ qs), mn := None]"
    by blast
  show ?thesis unfolding px using s m ne ps by (auto simp: nth_list_update)
qed

lemma alive_count_pos: "k < length (pixels g) \<Longrightarrow> pixels g ! k = Some ps \<Longrightarrow> 1 \<le> alive_count g"
proof -
  assume "k < length (pixels g)" "pixels g ! k = Some ps"
  then have "Some ps \<in> set (filter (\<lambda>p. p \<noteq> None) (pixels g))"
    by (auto simp: in_set_conv_nth)
  then have "0 < length (filter (\<lambda>p. p \<noteq> None) (pixels g))"
    by (rule length_pos_if_in_set)
  then show ?thesis unfolding alive_count_def by linarith
qed

lemma visit_dead:
  assumes "visit U V threshold minthreshold r serp g = Inr g'"
  shows "length (pixels g') = length (pixels g) \<and>
         (\<forall>k<length (pixels g). pixels g ! k = None \<longrightarrow> pixels g' ! k = None) \<and>
         (1 \<le> alive_count g \<longrightarrow> 1 \<le> alive_count g')"
proof (cases "g' = g")
  case True
  then show ?thesis by simp
next
  case False
  with assms obtain mn where mg: "merge serp mn (g\<lparr>draws := draws g + 1\<rparr>) = Inr g'"
    unfolding visit_def expand_def by (auto split: if_splits option.splits)
  from merge_dead[OF mg] obtain ps where
    len: "length (pixels g') = length (pixels g)" and
    alive: "pixels g' ! serp = Some ps" and
    dead: "\<forall>k<length (pixels g). pixels g ! k = None \<longrightarrow> pixels g' ! k = None"
    by auto
  from merge_Inr[OF mg] have "serp < length (pixels g')" using len by auto
  from alive_count_pos[OF this alive] len dead show ?thesis by simp
qed

lemma visit_all_dead:
  "visit_all U V threshold minthreshold r xs g = Inr g' \<Longrightarrow>
   length (pixels g') = length (pixels g) \<and>
   (\<forall>k<length (pixels g). pixels g ! k = None \<longrightarrow> pixels g' ! k = None) \<and>
   (1 \<le> alive_count g \<longrightarrow> 1 \<le> alive_count g')"
proof (induction xs arbitrary: g)
  case Nil
  then show ?case by simp
next
  case (Cons x xs)
  then obtain g1 where v: "visit U V threshold minthreshold r x g = Inr g1"
    and rest: "visit_all U V threshold minthreshold r xs g1 = Inr g'"
    by (auto split: sum.splits)
  from visit_dead[OF v] Cons.IH[OF rest] show ?case by auto
qed

lemma visit_fixed:
  "visit U V threshold minthreshold r x g = Inr g' \<Longrightarrow> alive_count g' = alive_count g \<Longrightarrow> g' = g"
  using visit_cases by fastforce

lemma visit_all_fixed:
  "visit_all U V threshold minthreshold r xs g = Inr g' \<Longrightarrow> alive_count g' = alive_count g \<Longrightarrow>
   g' = g \<and> (\<forall>x\<in>set xs. visit U V threshold minthreshold r x g = Inr g)"
proof (induction xs arbitrary: g)
  case Nil
  then show ?case by simp
next
  case (Cons x xs)
  then obtain g1 where v: "visit U V threshold minthreshold r x g = Inr g1"
    and rest: "visit_all U V threshold minthreshold r xs g1 = Inr g'"
    by (auto split: sum.splits)
  from visit_all_le[OF rest] visit_cases[OF v] Cons.prems(2)
  have "alive_count g1 = alive_count g" by auto
  with visit_fixed[OF v] have g1: "g1 = g" by simp
  with Cons.IH[OF rest] Cons.prems(2) v show ?case by simp
qed

section \<open>Convergence of the pass loop\<close>

lemma run_passes_trace:
  "cur = alive_count g \<Longrightarrow>
   run_passes start U V threshold minthreshold r i g prev cur = Inr (g', i') \<Longrightarrow>
   i \<le> i' \<and> draws g \<le> draws g' \<and> i' \<le> i + (draws g' - draws g) + 1 \<and>
   (i' = i \<longrightarrow> g' = g \<and> cur = prev) \<and>
   (i < i' \<longrightarrow> visit_all U V threshold minthreshold r (perms r (i' - 1)) g' = Inr g')"
proof (induction i g prev cur rule: run_passes_induct[where start = start and U = U and V = V
      and threshold = threshold and minthreshold = minthreshold and r = r])
  case (1 i g prev cur)
  show ?case
  proof (cases "cur = prev")
    case True
    with "1.prems" show ?thesis by (simp add: run_passes_stop)
  next
    case False
    from run_passes_step[OF "1.prems"(2) False] obtain g1 where
      s: "start \<noteq> 0" and
      p: "visit_all U V threshold minthreshold r (perms r i) g = Inr g1" and
      rest: "run_passes start U V threshold minthreshold r (i + 1) g1 cur (alive_count g1) =
               Inr (g', i')"
      by blast
    from "1.IH"[OF False s p refl rest] have
      a: "i + 1 \<le> i'" and b: "draws g1 \<le> draws g'" and
      c: "i' \<le> i + 1 + (draws g' - draws g1) + 1" and
      d: "i' = i + 1 \<longrightarrow> g' = g1 \<and> alive_count g1 = cur" and
      e: "i + 1 < i' \<longrightarrow> visit_all U V threshold minthreshold r (perms r (i' - 1)) g' = Inr g'"
      by blast+
    from visit_all_count[OF p] have cnt: "alive_count g1 + draws g1 = alive_count g + draws g"
      and mono: "draws g \<le> draws g1" by simp_all
    have fixd: "visit_all U V threshold minthreshold r (perms r (i' - 1)) g' = Inr g'"
    proof (cases "i' = i + 1")
      case True
      with d "1.prems"(1) have "g' = g1" "alive_count g1 = alive_count g" by simp_all
      with visit_all_fixed[OF p] p True show ?thesis by simp
    next
      case False
      with a e show ?thesis by simp
    qed
    have bound: "i' \<le> i + (draws g' - draws g) + 1"
    proof (cases "i' = i + 1")
      case True
      then show ?thesis by simp
    next
      case ne: False
      have "alive_count g1 \<noteq> cur"
      proof
        assume "alive_count g1 = cur"
        with rest have "i' = i + 1" by (simp add: run_passes_stop)
        with ne show False by simp
      qed
      with cnt "1.prems"(1) mono have "draws g + 1 \<le> draws g1" by simp
      with b c show ?thesis by simp
    qed
    from a b mono fixd bound show ?thesis by simp
  qed
qed

lemma count_invariant:
  "alive_count g + draws g = n \<and> 1 \<le> alive_count g \<Longrightarrow>
   visit U V threshold minthreshold r x g = Inr g' \<Longrightarrow>
   alive_count g' + draws g' = n \<and> 1 \<le> alive_count g'"
  using visit_cases[of U V threshold minthreshold r x g g']
        visit_dead[of U V threshold minthreshold r x g g'] by auto

lemma trial_loop:
  assumes run: "run_passes (init_start triangular s0 s1) U V threshold minthreshold r 0
             (init_graph triangular s0 s1) 0 1 = Inr (g', i')"
  shows "draws g' + alive_count g' = init_start triangular s0 s1 \<and> 1 \<le> alive_count g' \<and>
         1 \<le> i' \<and> i' \<le> draws g' + 2 \<and> (i' = 1 \<longrightarrow> alive_count g' = 1) \<and>
         (1 < i' \<longrightarrow> visit_all U V threshold minthreshold r (perms r (i' - 1)) g' = Inr g')"
proof -
  let ?n = "init_start triangular s0 s1"
  let ?g0 = "init_graph triangular s0 s1"
  from run_passes_step[OF run] obtain g1 where
    s: "?n \<noteq> 0" and
    rest: "run_passes ?n U V threshold minthreshold r (0 + 1) g1 1 (alive_count g1) = Inr (g', i')"
    by auto
  have I0: "alive_count ?g0 + draws ?g0 = ?n \<and> 1 \<le> alive_count ?g0"
    using s by (simp add: alive_count_init) (simp add: init_graph_def)
  have "alive_count g' + draws g' = ?n \<and> 1 \<le> alive_count g'"
  proof (rule run_passes_invariant[where I = "\<lambda>h. alive_count h + draws h = ?n \<and> 1 \<le> alive_count h",
          OF _ I0 run])
    fix x h h'
    assume "alive_count h + draws h = ?n \<and> 1 \<le> alive_count h"
      and "visit U V threshold minthreshold r x h = Inr h'"
    then show "alive_count h' + draws h' = ?n \<and> 1 \<le> alive_count h'"
      by (rule count_invariant)
  qed
  moreover from run_passes_trace[OF refl rest] have
    "1 \<le> i'" "i' \<le> 1 + (draws g' - draws g1) + 1"
    "i' = 1 \<longrightarrow> g' = g1 \<and> alive_count g1 = 1"
    "1 < i' \<longrightarrow> visit_all U V threshold minthreshold r (perms r (i' - 1)) g' = Inr g'"
    by simp_all
  ultimately show ?thesis by auto
qed

text \<open>
  Claim C3 (as stated: the loop stops exactly when a pass leaves the alive count equal
  to the count before it) fails on the code. The two counters start at the constants
  0 and 1, not at the number of pixels, so the count after the first pass is compared
  with 1. On a 1 by 2 matrix of ones the first pass merges the two pixels, the count
  goes from 2 to 1, and the loop stops after this one pass, which did perform a merge.
\<close>

theorem first_pass_compared_with_one:
  "alive_count (init_graph False 1 2) = 2 \<and>
   run_passes 2 [1, 1] [1, 1] 40 10 (const_rng [0, 1] 0) 0 (init_graph False 1 2) 0 1 =
     Inr (\<lparr>pixels = [Some [0, 1], None], neighs = [Some [], None], draws = 1\<rparr>, 1) \<and>
   alive_count \<lparr>pixels = [Some [0, 1], None], neighs = [Some [], None], draws = 1\<rparr> = 1"
  by (simp add: trial_eval)

text \<open>
  Claim C3, amended. The pass loop is a total function (its termination is proved with
  the definition, from the facts below). Every merge kills exactly one region, for
  good; over a pass the alive count does not increase, and it decreases by the number
  of merges of the pass (counted by the random draws consumed, one per merge). The
  loop returns at once when its two counters are equal and runs at least one more pass
  when they differ. For a trial that returns, started on the initial graph with the
  counters 0 and 1: the merges and the alive regions add up to the initial number of
  pixels, at least one region is alive, so there were at most that number minus 1
  merges; there were at most two passes more than merges; and the loop stopped either
  after the first pass with exactly one region alive (the comparison with the constant
  1), or after a later pass that changed nothing.
\<close>

theorem pass_loop_convergence:
  "(merge serp mn g = Inr g1 \<longrightarrow>
      alive_count g1 + 1 = alive_count g \<and> pixels g1 ! mn = None \<and>
      (\<forall>k<length (pixels g). pixels g ! k = None \<longrightarrow> pixels g1 ! k = None)) \<and>
   (visit_all U V threshold minthreshold r xs g = Inr g2 \<longrightarrow>
      alive_count g2 \<le> alive_count g \<and>
      draws g2 - draws g = alive_count g - alive_count g2 \<and>
      (\<forall>k<length (pixels g). pixels g ! k = None \<longrightarrow> pixels g2 ! k = None)) \<and>
   run_passes start U V threshold minthreshold r i g prev prev = Inr (g, i) \<and>
   (cur \<noteq> prev \<and> run_passes start U V threshold minthreshold r i g prev cur = Inr (g3, i3) \<longrightarrow>
      i < i3) \<and>
   (run_passes (init_start triangular s0 s1) U V threshold minthreshold r 0
      (init_graph triangular s0 s1) 0 1 = Inr (g4, i4) \<longrightarrow>
      draws g4 + alive_count g4 = init_start triangular s0 s1 \<and> 1 \<le> alive_count g4 \<and>
      draws g4 \<le> init_start triangular s0 s1 - 1 \<and>
      1 \<le> i4 \<and> i4 \<le> draws g4 + 2 \<and>
      (i4 = 1 \<longrightarrow> alive_count g4 = 1) \<and>
      (1 < i4 \<longrightarrow> visit_all U V threshold minthreshold r (perms r (i4 - 1)) g4 = Inr g4))"
proof (intro conjI impI)
  assume m: "merge serp mn g = Inr g1"
  show "alive_count g1 + 1 = alive_count g" using m by (rule merge_alive_count)
  show "pixels g1 ! mn = None" using merge_dead[OF m] by blast
  show "\<forall>k<length (pixels g). pixels g ! k = None \<longrightarrow> pixels g1 ! k = None"
    using merge_dead[OF m] by blast
next
  assume p: "visit_all U V threshold minthreshold r xs g = Inr g2"
  show "alive_count g2 \<le> alive_count g" using p by (rule visit_all_le)
  show "draws g2 - draws g = alive_count g - alive_count g2"
    using visit_all_count[OF p] by linarith
  show "\<forall>k<length (pixels g). pixels g ! k = None \<longrightarrow> pixels g2 ! k = None"
    using visit_all_dead[OF p] by blast
next
  show "run_passes start U V threshold minthreshold r i g prev prev = Inr (g, i)"
    by (rule run_passes_stop)
next
  assume a: "cur \<noteq> prev \<and> run_passes start U V threshold minthreshold r i g prev cur = Inr (g3, i3)"
  then obtain h where
    rest: "run_passes start U V threshold minthreshold r (i + 1) h cur (alive_count h) = Inr (g3, i3)"
    using run_passes_step[of start U V threshold minthreshold r i g prev cur g3 i3] by blast
  from run_passes_trace[OF refl rest] show "i < i3" by simp
next
  assume run: "run_passes (init_start triangular s0 s1) U V threshold minthreshold r 0
      (init_graph triangular s0 s1) 0 1 = Inr (g4, i4)"
  note t = trial_loop[OF run]
  show "draws g4 + alive_count g4 = init_start triangular s0 s1" using t by blast
  show "1 \<le> alive_count g4" using t by blast
  show "draws g4 \<le> init_start triangular s0 s1 - 1" using t by linarith
  show "1 \<le> i4" using t by blast
  show "i4 \<le> draws g4 + 2" using t by blast
  show "alive_count g4 = 1" if "i4 = 1" using t that by blast
  show "visit_all U V threshold minthreshold r (perms r (i4 - 1)) g4 = Inr g4" if "1 < i4"
    using t that by blast
qed

text \<open>
  Witness for the amended C3: the 2 by 2 matrix of ones with thresholds 3 and 0. The
  first pass merges the pixels into two regions of sum 2 each, the second pass
  merges these, and the third pass changes nothing.
\<close>

theorem pass_loop_convergence_witness:
  "merge 0 1 (init_graph False 1 2) =
     Inr \<lparr>pixels = [Some [0, 1], None], neighs = [Some [], None], draws = 0\<rparr> \<and>
   alive_count \<lparr>pixels = [Some [0, 1], None], neighs = [Some [], None], draws = 0\<rparr> + 1 =
     alive_count (init_graph False 1 2) \<and>
   visit_all [1, 1] [1, 1] 40 10 (const_rng [0, 1] 0) [0, 1] (init_graph False 1 2) =
     Inr \<lparr>pixels = [Some [0, 1], None], neighs = [Some [], None], draws = 1\<rparr> \<and>
   alive_count \<lparr>pixels = [Some [0, 1], None], neighs = [Some [], None], draws = 1\<rparr> \<le>
     alive_count (init_graph False 1 2) \<and>
   (1::nat) \<noteq> 0 \<and>
   run_passes 2 [1, 1] [1, 1] 40 10 (const_rng [0, 1] 0) 0 (init_graph False 1 2) 0 1 =
     Inr (\<lparr>pixels = [Some [0, 1], None], neighs = [Some [], None], draws = 1\<rparr>, 1) \<and>
   (0::nat) < 1 \<and>
   run_passes (init_start False 2 2) [1, 1, 1, 1] [1, 1, 1, 1] 3 0 (const_rng [0, 1, 2, 3] 0) 0
     (init_graph False 2 2) 0 1 =
     Inr (\<lparr>pixels = [Some [0, 2, 1, 3], None, None, None],
           neighs = [Some [], None, None, None], draws = 3\<rparr>, 3) \<and>
   (3::nat) \<le> init_start False 2 2 - 1 \<and>
   visit_all [1, 1, 1, 1] [1, 1, 1, 1] 3 0 (const_rng [0, 1, 2, 3] 0)
     (perms (const_rng [0, 1, 2, 3] 0) (3 - 1))
     \<lparr>pixels = [Some [0, 2, 1, 3], None, None, None],
      neighs = [Some [], None, None, None], draws = 3\<rparr> =
     Inr \<lparr>pixels = [Some [0, 2, 1, 3], None, None, None],
          neighs = [Some [], None, None, None], draws = 3\<rparr>"
proof -
  let ?g1 = "\<lparr>pixels = [Some [0, 1], None], neighs = [Some [], None], draws = 0\<rparr>"
  let ?g2 = "\<lparr>pixels = [Some [0, 1], None], neighs = [Some [], None], draws = 1\<rparr>"
  let ?g4 = "\<lparr>pixels = [Some [0, 2, 1, 3], None, None, None],
           neighs = [Some [], None, None, None], draws = 3\<rparr>"
  note inst = pass_loop_convergence[of 0 1 "init_graph False 1 2" ?g1
      "[1, 1]" "[1, 1]" 40 10 "const_rng [0, 1] 0" "[0, 1]" ?g2 2 0 0 1 ?g2 1]
  note inst4 = pass_loop_convergence[where triangular = False and ?s0.0 = 2 and ?s1.0 = 2
      and U = "[1, 1, 1, 1]" and V = "[1, 1, 1, 1]" and threshold = 3 and minthreshold = 0
      and r = "const_rng [0, 1, 2, 3] 0" and ?g4.0 = ?g4 and ?i4.0 = 3]
  have m: "merge 0 1 (init_graph False 1 2) = Inr ?g1" by (simp add: trial_eval)
  have p: "visit_all [1, 1] [1, 1] 40 10 (const_rng [0, 1] 0) [0, 1] (init_graph False 1 2) = Inr ?g2"
    by (simp add: trial_eval)
  have l: "run_passes 2 [1, 1] [1, 1] 40 10 (const_rng [0, 1] 0) 0 (init_graph False 1 2) 0 1 =
     Inr (?g2, 1)" by (simp add: trial_eval)
  have l4: "run_passes (init_start False 2 2) [1, 1, 1, 1] [1, 1, 1, 1] 3 0 (const_rng [0, 1, 2, 3] 0) 0
     (init_graph False 2 2) 0 1 = Inr (?g4, 3)" by (simp add: trial_eval)
  have d4: "draws ?g4 = 3" by simp
  from inst m p l have "alive_count ?g1 + 1 = alive_count (init_graph False 1 2)"
    "alive_count ?g2 \<le> alive_count (init_graph False 1 2)" by blast+
  moreover from inst4 l4 d4 have "(3::nat) \<le> init_start False 2 2 - 1"
    "visit_all [1, 1, 1, 1] [1, 1, 1, 1] 3 0 (const_rng [0, 1, 2, 3] 0)
     (perms (const_rng [0, 1, 2, 3] 0) (3 - 1)) ?g4 = Inr ?g4" by auto
  ultimately show ?thesis using m p l l4 by simp
qed

section \<open>The neighbour relation under merges\<close>

lemma rewire_spec:
  "rewire serp mn zs nb = Inr nb' \<Longrightarrow>
   length nb' = length nb \<and>
   (\<forall>k<length nb.
      if k \<in> set zs
      then \<exists>nz nz'. nb ! k = Some nz \<and> mn \<in> set nz \<and> nb' ! k = Some nz' \<and>
             set nz' = insert serp (set nz - {mn}) \<and> (distinct nz \<longrightarrow> distinct nz')
      else nb' ! k = nb ! k)"
proof (induction zs arbitrary: nb)
  case Nil
  then show ?case by simp
next
  case (Cons z zs)
  from Cons.prems obtain nz where z: "z < length nb" and nz: "nb ! z = Some nz"
    and mn: "mn \<in> set nz"
    and rest: "rewire serp mn zs (nb[z := Some (List.insert serp (removeAll mn nz))]) = Inr nb'"
    by (auto split: if_splits option.splits sum.splits dest!: set_remove_Inr)
  let ?nb1 = "nb[z := Some (List.insert serp (removeAll mn nz))]"
  note IH = Cons.IH[OF rest, unfolded length_list_update]
  from IH have len: "length nb' = length nb" by (rule conjunct1)
  from IH have ih: "\<forall>k<length nb.
      if k \<in> set zs
      then \<exists>nz nz'. ?nb1 ! k = Some nz \<and> mn \<in> set nz \<and> nb' ! k = Some nz' \<and>
             set nz' = insert serp (set nz - {mn}) \<and> (distinct nz \<longrightarrow> distinct nz')
      else nb' ! k = ?nb1 ! k"
    by (rule conjunct2)
  have "if k \<in> set (z # zs)
      then \<exists>nz nz'. nb ! k = Some nz \<and> mn \<in> set nz \<and> nb' ! k = Some nz' \<and>
             set nz' = insert serp (set nz - {mn}) \<and> (distinct nz \<longrightarrow> distinct nz')
      else nb' ! k = nb ! k" if k: "k < length nb" for k
  proof -
    note hk = ih[rule_format, OF k]
    show ?thesis
    proof (cases "k = z")
      case True
      have upd: "?nb1 ! z = Some (List.insert serp (removeAll mn nz))" using z by simp
      show ?thesis
      proof (cases "z \<in> set zs")
        case zin: True
        from hk True zin obtain n1 n2 where
          n1: "?nb1 ! z = Some n1" and n2: "nb' ! z = Some n2" and
          st: "set n2 = insert serp (set n1 - {mn})" and ds: "distinct n1 \<longrightarrow> distinct n2"
          by auto
        from n1 upd have e: "n1 = List.insert serp (removeAll mn nz)" by simp
        have "set n2 = insert serp (set nz - {mn})" unfolding st e by auto
        moreover have "distinct nz \<longrightarrow> distinct n2" using ds e by (simp add: distinct_removeAll)
        ultimately show ?thesis using True nz mn n2 by simp
      next
        case False
        with hk True have "nb' ! z = ?nb1 ! z" by simp
        with upd True nz mn False show ?thesis by (auto simp: distinct_removeAll)
      qed
    next
      case False
      with hk show ?thesis by (simp split: if_splits)
    qed
  qed
  with len show ?case by blast
qed


lemma set_update_set: "set (set_update s t) = set s \<union> set t"
  by (auto simp: set_update_def)

lemma set_update_distinct: "distinct s \<Longrightarrow> distinct t \<Longrightarrow> distinct (set_update s t)"
  by (auto simp: set_update_def)

lemma merge_unfold:
  assumes "merge serp mn g = Inr g'"
  shows "\<exists>ps qs ns ms nb.
           serp < length (pixels g) \<and> mn < length (pixels g) \<and>
           serp < length (neighs g) \<and> mn < length (neighs g) \<and> serp \<noteq> mn \<and>
           pixels g ! serp = Some ps \<and> pixels g ! mn = Some qs \<and>
           neighs g ! serp = Some ns \<and> neighs g ! mn = Some ms \<and>
           mn \<in> set ns \<and> serp \<in> set ms \<and>
           rewire serp mn (removeAll serp ms)
             ((neighs g)[serp := Some (removeAll mn ns), mn := Some (removeAll serp ms),
                serp := Some (set_update (removeAll mn ns) (removeAll serp ms))]) = Inr nb \<and>
           g' = g\<lparr>pixels := (pixels g)[serp := Some (ps @ qs), mn := None],
                   neighs := nb[mn := None]\<rparr>"
proof -
  from merge_Inr[OF assms] have ne: "serp \<noteq> mn" by blast
  from assms ne show ?thesis unfolding merge_def
    by (auto split: if_splits option.splits sum.splits dest!: set_remove_Inr)
qed

lemma merge_neighs:
  assumes "merge serp mn g = Inr g'"
  shows "\<exists>ns ms. serp \<noteq> mn \<and> serp < length (neighs g) \<and> mn < length (neighs g) \<and>
     neighs g ! serp = Some ns \<and> neighs g ! mn = Some ms \<and> mn \<in> set ns \<and> serp \<in> set ms \<and>
     length (neighs g') = length (neighs g) \<and> neighs g' ! mn = None \<and>
     (\<exists>ns'. neighs g' ! serp = Some ns' \<and> set ns' = (set ns - {mn}) \<union> (set ms - {serp}) \<and>
        (distinct ns \<and> distinct ms \<longrightarrow> distinct ns')) \<and>
     (\<forall>k<length (neighs g). k \<noteq> mn \<longrightarrow> k \<noteq> serp \<longrightarrow>
        (if k \<in> set ms
         then \<exists>nz nz'. neighs g ! k = Some nz \<and> mn \<in> set nz \<and> neighs g' ! k = Some nz' \<and>
                set nz' = insert serp (set nz - {mn}) \<and> (distinct nz \<longrightarrow> distinct nz')
         else neighs g' ! k = neighs g ! k))"
proof -
  from merge_unfold[OF assms] obtain ps qs ns ms nb where
    s: "serp < length (neighs g)" and m: "mn < length (neighs g)" and ne: "serp \<noteq> mn" and
    ns: "neighs g ! serp = Some ns" and ms: "neighs g ! mn = Some ms" and
    mn_in: "mn \<in> set ns" and serp_in: "serp \<in> set ms" and
    rw: "rewire serp mn (removeAll serp ms)
             ((neighs g)[serp := Some (removeAll mn ns), mn := Some (removeAll serp ms),
                serp := Some (set_update (removeAll mn ns) (removeAll serp ms))]) = Inr nb" and
    g': "g' = g\<lparr>pixels := (pixels g)[serp := Some (ps @ qs), mn := None],
                   neighs := nb[mn := None]\<rparr>"
    by blast
  let ?nb3 = "(neighs g)[serp := Some (removeAll mn ns), mn := Some (removeAll serp ms),
                serp := Some (set_update (removeAll mn ns) (removeAll serp ms))]"
  note R = rewire_spec[OF rw, unfolded length_list_update]
  from R have len: "length nb = length (neighs g)" by (rule conjunct1)
  from R have pw: "\<forall>k<length (neighs g).
      if k \<in> set (removeAll serp ms)
      then \<exists>nz nz'. ?nb3 ! k = Some nz \<and> mn \<in> set nz \<and> nb ! k = Some nz' \<and>
             set nz' = insert serp (set nz - {mn}) \<and> (distinct nz \<longrightarrow> distinct nz')
      else nb ! k = ?nb3 ! k"
    by (rule conjunct2)
  have nl: "neighs g' = nb[mn := None]" by (simp add: g')
  have a: "length (neighs g') = length (neighs g)" by (simp add: nl len)
  have b: "neighs g' ! mn = None" using m by (simp add: nl len)
  have "nb ! serp = ?nb3 ! serp" using pw[rule_format, OF s] by simp
  then have c0: "neighs g' ! serp = Some (set_update (removeAll mn ns) (removeAll serp ms))"
    using s ne by (simp add: nl)
  have c: "\<exists>ns'. neighs g' ! serp = Some ns' \<and> set ns' = (set ns - {mn}) \<union> (set ms - {serp}) \<and>
        (distinct ns \<and> distinct ms \<longrightarrow> distinct ns')"
    using c0 by (auto simp: set_update_set intro!: set_update_distinct distinct_removeAll)
  have d: "if k \<in> set ms
         then \<exists>nz nz'. neighs g ! k = Some nz \<and> mn \<in> set nz \<and> neighs g' ! k = Some nz' \<and>
                set nz' = insert serp (set nz - {mn}) \<and> (distinct nz \<longrightarrow> distinct nz')
         else neighs g' ! k = neighs g ! k"
    if k: "k < length (neighs g)" and k1: "k \<noteq> mn" and k2: "k \<noteq> serp" for k
  proof -
    have e1: "?nb3 ! k = neighs g ! k" using k1 k2 by simp
    have e2: "neighs g' ! k = nb ! k" using k1 by (simp add: nl)
    have e3: "k \<in> set (removeAll serp ms) \<longleftrightarrow> k \<in> set ms" using k2 by simp
    from pw[rule_format, OF k] show ?thesis unfolding e1 e2 e3 .
  qed
  from s m ne ns ms mn_in serp_in a b c d show ?thesis by blast
qed


lemma merge_nbrs:
  assumes mg: "merge serp mn g = Inr g'" and k: "k < length (neighs g)"
  shows "nbrs g' k =
     (if k = mn then {}
      else if k = serp then (nbrs g serp - {mn}) \<union> (nbrs g mn - {serp})
      else if k \<in> nbrs g mn then insert serp (nbrs g k - {mn})
      else nbrs g k)"
proof -
  from merge_neighs[OF mg] obtain ns ms ns' where
    ne: "serp \<noteq> mn" and
    ns: "neighs g ! serp = Some ns" and ms: "neighs g ! mn = Some ms" and
    b: "neighs g' ! mn = None" and
    c: "neighs g' ! serp = Some ns'" "set ns' = (set ns - {mn}) \<union> (set ms - {serp})" and
    d: "\<forall>k<length (neighs g). k \<noteq> mn \<longrightarrow> k \<noteq> serp \<longrightarrow>
        (if k \<in> set ms
         then \<exists>nz nz'. neighs g ! k = Some nz \<and> mn \<in> set nz \<and> neighs g' ! k = Some nz' \<and>
                set nz' = insert serp (set nz - {mn}) \<and> (distinct nz \<longrightarrow> distinct nz')
         else neighs g' ! k = neighs g ! k)"
    by blast
  show ?thesis
  proof (cases "k = mn \<or> k = serp")
    case True
    then show ?thesis using ne ns ms b c by (auto simp: nbrs_def)
  next
    case False
    note dk = d[rule_format, OF k]
    show ?thesis
    proof (cases "k \<in> set ms")
      case True
      with dk False obtain nz nz' where
        "neighs g ! k = Some nz" "neighs g' ! k = Some nz'"
        "set nz' = insert serp (set nz - {mn})"
        by auto
      with True False ms show ?thesis by (simp add: nbrs_def)
    next
      case nin: False
      with dk False have "neighs g' ! k = neighs g ! k" by simp
      with nin False ms show ?thesis by (simp add: nbrs_def)
    qed
  qed
qed

lemma merge_nbrs_facts:
  assumes mg: "merge serp mn g = Inr g'"
  shows "serp \<noteq> mn \<and> serp < length (neighs g) \<and> mn < length (neighs g) \<and>
         mn \<in> nbrs g serp \<and> serp \<in> nbrs g mn"
  using merge_neighs[OF mg] by (auto simp: nbrs_def)

lemma merge_graph_ok:
  assumes ok: "graph_ok g" and mg: "merge serp mn g = Inr g'"
  shows "graph_ok g'"
proof -
  let ?n = "length (pixels g)"
  note O = ok[unfolded graph_ok_def]
  note len = O[THEN conjunct1]
  note cons = O[THEN conjunct2, THEN conjunct1]
  note dist = O[THEN conjunct2, THEN conjunct2, THEN conjunct1]
  note sym = O[THEN conjunct2, THEN conjunct2, THEN conjunct2]
  from merge_Inr[OF mg] obtain ps qs where
    px: "pixels g' = (pixels g)[serp := Some (ps @ qs), mn := None]" and
    sl: "serp < ?n" and ml: "mn < ?n" and
    lenn: "length (neighs g') = length (neighs g)"
    by blast
  have lenp: "length (pixels g') = ?n" by (simp add: px)
  from merge_nbrs_facts[OF mg] have ne: "serp \<noteq> mn" and
    mn_in: "mn \<in> nbrs g serp" and serp_in: "serp \<in> nbrs g mn" by blast+
  from merge_neighs[OF mg] obtain ns ms ns' where
    ns: "neighs g ! serp = Some ns" and ms: "neighs g ! mn = Some ms" and
    b: "neighs g' ! mn = None" and
    c: "neighs g' ! serp = Some ns'" "distinct ns \<and> distinct ms \<longrightarrow> distinct ns'" and
    d: "\<forall>k<length (neighs g). k \<noteq> mn \<longrightarrow> k \<noteq> serp \<longrightarrow>
        (if k \<in> set ms
         then \<exists>nz nz'. neighs g ! k = Some nz \<and> mn \<in> set nz \<and> neighs g' ! k = Some nz' \<and>
                set nz' = insert serp (set nz - {mn}) \<and> (distinct nz \<longrightarrow> distinct nz')
         else neighs g' ! k = neighs g ! k)"
    by blast
  have p1: "length (neighs g') = length (pixels g')" by (simp add: lenn len lenp)
  have p2: "(pixels g' ! k = None) = (neighs g' ! k = None)" if k: "k < ?n" for k
  proof (cases "k = mn \<or> k = serp")
    case True
    then show ?thesis using ne b c sl ml by (auto simp: px)
  next
    case False
    then have "pixels g' ! k = pixels g ! k" by (simp add: px)
    moreover from d[rule_format, of k] k len False
    have "(neighs g' ! k = None) = (neighs g ! k = None)" by (auto split: if_splits)
    ultimately show ?thesis using cons k by simp
  qed
  have p3: "distinct xs" if k: "k < ?n" and xs: "neighs g' ! k = Some xs" for k xs
  proof (cases "k = mn \<or> k = serp")
    case True
    have "distinct ns" "distinct ms"
      using dist[rule_format, OF sl ns] dist[rule_format, OF ml ms] by simp_all
    with True show ?thesis using ne b c xs by auto
  next
    case False
    note dk = d[rule_format, of k]
    show ?thesis
    proof (cases "k \<in> set ms")
      case True
      with dk k len False obtain nz nz' where
        "neighs g ! k = Some nz" "neighs g' ! k = Some nz'" "distinct nz \<longrightarrow> distinct nz'"
        by auto
      with dist[rule_format, OF k, of nz] xs show ?thesis by simp
    next
      case nin: False
      with dk k len False have "neighs g' ! k = neighs g ! k" by simp
      with dist[rule_format, OF k, of xs] xs show ?thesis by simp
    qed
  qed
  have N: "nbrs g' k =
     (if k = mn then {}
      else if k = serp then (nbrs g serp - {mn}) \<union> (nbrs g mn - {serp})
      else if k \<in> nbrs g mn then insert serp (nbrs g k - {mn})
      else nbrs g k)" if "k < ?n" for k
    using merge_nbrs[OF mg] that len by simp
  have symD: "b < ?n \<and> b \<noteq> a \<and> a \<in> nbrs g b" if "a < ?n" "b \<in> nbrs g a" for a b
    using sym that by blast
  have H: "k \<in> nbrs g' m" if "m < ?n" "m \<noteq> mn" "k \<noteq> mn" "k \<in> nbrs g m" for k m
    unfolding N[OF that(1)] using that(2,3,4) by auto
  have p4: "m < ?n \<and> m \<noteq> k \<and> k \<in> nbrs g' m" if k: "k < ?n" and m: "m \<in> nbrs g' k" for k m
  proof -
    have km: "k \<noteq> mn" using m unfolding N[OF k] by (simp split: if_splits)
    show ?thesis
    proof (cases "k = serp")
      case True
      from m have "m \<in> nbrs g serp \<and> m \<noteq> mn \<or> m \<in> nbrs g mn \<and> m \<noteq> serp"
        unfolding N[OF k] using True ne by auto
      then show ?thesis
      proof
        assume a: "m \<in> nbrs g serp \<and> m \<noteq> mn"
        from symD[OF sl] a have "m < ?n" "m \<noteq> serp" "serp \<in> nbrs g m" by blast+
        with H[of m serp] a ne True show ?thesis by simp
      next
        assume a: "m \<in> nbrs g mn \<and> m \<noteq> serp"
        from symD[OF ml] a have b: "m < ?n" "m \<noteq> mn" by blast+
        have "serp \<in> nbrs g' m" unfolding N[OF b(1)] using a b by simp
        with b a True show ?thesis by simp
      qed
    next
      case ks: False
      show ?thesis
      proof (cases "k \<in> nbrs g mn")
        case True
        from m have "m = serp \<or> m \<in> nbrs g k \<and> m \<noteq> mn"
          unfolding N[OF k] using True ks km by auto
        then show ?thesis
        proof
          assume a: "m = serp"
          have "k \<in> nbrs g' serp" unfolding N[OF sl] using True ks ne by simp
          with a sl ks show ?thesis by simp
        next
          assume a: "m \<in> nbrs g k \<and> m \<noteq> mn"
          from symD[OF k] a have "m < ?n" "m \<noteq> k" "k \<in> nbrs g m" by blast+
          with H[of m k] a km show ?thesis by simp
        qed
      next
        case False
        from m have a: "m \<in> nbrs g k" unfolding N[OF k] using False ks km by simp
        from symD[OF k a] have b: "m < ?n" "m \<noteq> k" "k \<in> nbrs g m" by blast+
        have "m \<noteq> mn" using False b(3) by blast
        with H[of m k] b km show ?thesis by simp
      qed
    qed
  qed
  show ?thesis unfolding graph_ok_def lenp
  proof (intro conjI allI impI ballI)
    show "length (neighs g') = length (pixels g)" using p1 lenp by simp
  next
    fix k assume "k < ?n" then show "(pixels g' ! k = None) = (neighs g' ! k = None)" by (rule p2)
  next
    fix k xs assume "k < ?n" "neighs g' ! k = Some xs" then show "distinct xs" by (rule p3)
  next
    fix k m assume "k < ?n" "m \<in> nbrs g' k"
    from p4[OF this] show "m < ?n" "m \<noteq> k" "k \<in> nbrs g' m" by simp_all
  qed
qed

section \<open>The initial graph\<close>

lemma nbrs_grid:
  assumes k: "k < length L" and lk: "L ! k = (a, b)"
  shows "nbrs \<lparr>pixels = map (\<lambda>(i, j). Some [p i j]) L,
               neighs = map (\<lambda>(i, j). Some (remdups (map (\<lambda>(x, y). f x y) (nb i j)))) L,
               draws = 0\<rparr> k = (\<lambda>(x, y). f x y) ` set (nb a b)"
  using k lk by (simp add: nbrs_def)

lemma graph_ok_grid:
  fixes f :: "nat \<Rightarrow> nat \<Rightarrow> nat"
  assumes idx: "map (\<lambda>(i, j). f i j) L = [0..<N]"
    and nb: "\<And>a b x y. (a, b) \<in> set L \<Longrightarrow> (x, y) \<in> set (nb a b) \<Longrightarrow>
               (x, y) \<in> set L \<and> (x, y) \<noteq> (a, b) \<and> (a, b) \<in> set (nb x y)"
  shows "graph_ok \<lparr>pixels = map (\<lambda>(i, j). Some [p i j]) L,
               neighs = map (\<lambda>(i, j). Some (remdups (map (\<lambda>(x, y). f x y) (nb i j)))) L,
               draws = 0\<rparr>"
proof -
  let ?G = "\<lparr>pixels = map (\<lambda>(i, j). Some [p i j]) L,
               neighs = map (\<lambda>(i, j). Some (remdups (map (\<lambda>(x, y). f x y) (nb i j)))) L,
               draws = 0\<rparr>"
  have len: "length L = N" using arg_cong[OF idx, of length] by simp
  have at: "f a b = k" if "k < N" "L ! k = (a, b)" for k a b
  proof -
    have "(map (\<lambda>(i, j). f i j) L) ! k = [0..<N] ! k" by (simp only: idx)
    with that len show ?thesis by simp
  qed
  have pos: "\<exists>k<N. L ! k = (x, y)" if "(x, y) \<in> set L" for x y
    using that len by (auto simp: in_set_conv_nth)
  have sym: "m < N \<and> m \<noteq> k \<and> k \<in> nbrs ?G m" if k: "k < N" and m: "m \<in> nbrs ?G k" for k m
  proof -
    obtain a b where ab: "L ! k = (a, b)" by (cases "L ! k") simp
    have abL: "(a, b) \<in> set L" using k len ab by (metis nth_mem)
    from m nbrs_grid[of k L a b p f nb] k len ab obtain x y where
      xy: "(x, y) \<in> set (nb a b)" and mf: "m = f x y" by auto
    from nb[OF abL xy] have xyL: "(x, y) \<in> set L" and ne: "(x, y) \<noteq> (a, b)"
      and bk: "(a, b) \<in> set (nb x y)" by blast+
    from pos[OF xyL] obtain k' where k': "k' < N" "L ! k' = (x, y)" by blast
    from at[OF k'] mf have mk': "m = k'" by simp
    have "m \<noteq> k" using mk' k' ab ne by auto
    moreover have "k \<in> nbrs ?G m"
      using nbrs_grid[of m L x y p f nb] k' mk' len bk at[OF k ab] by force
    ultimately show ?thesis using mk' k' by simp
  qed
  show ?thesis unfolding graph_ok_def
  proof (intro conjI allI impI ballI)
    show "length (neighs ?G) = length (pixels ?G)" by simp
  next
    fix k assume "k < length (pixels ?G)"
    then show "(pixels ?G ! k = None) = (neighs ?G ! k = None)"
      by (simp add: case_prod_beta)
  next
    fix k ns assume "k < length (pixels ?G)" "neighs ?G ! k = Some ns"
    then show "distinct ns" by (auto simp: case_prod_beta)
  next
    fix k m assume "k < length (pixels ?G)" "m \<in> nbrs ?G k"
    then have "k < N" "m \<in> nbrs ?G k" using len by simp_all
    from sym[OF this] len show "m < length (pixels ?G)" "m \<noteq> k" "k \<in> nbrs ?G m" by simp_all
  qed
qed

lemma pixel_neighs_sym:
  "a < h \<Longrightarrow> b < w \<Longrightarrow> (x, y) \<in> set (pixel_neighs a b h w) \<Longrightarrow>
   x < h \<and> y < w \<and> (x, y) \<noteq> (a, b) \<and> (a, b) \<in> set (pixel_neighs x y h w)"
  by (auto simp: pixel_neighs_def split: if_splits)

lemma set_pixel_neighs_triangular:
  "p \<in> set (pixel_neighs_triangular i j sz) \<longleftrightarrow>
     (0 < i \<and> j \<le> i - 1 \<and> p = (i - 1, j)) \<or> (i + 1 < sz \<and> j \<le> i + 1 \<and> p = (i + 1, j)) \<or>
     (0 < j \<and> j - 1 \<le> i \<and> p = (i, j - 1)) \<or> (j + 1 < sz \<and> j + 1 \<le> i \<and> p = (i, j + 1))"
  unfolding pixel_neighs_triangular_def by auto

lemma pixel_neighs_triangular_sym:
  assumes "b \<le> a" "a < n" "(x, y) \<in> set (pixel_neighs_triangular a b n)"
  shows "y \<le> x \<and> x < n \<and> (x, y) \<noteq> (a, b) \<and> (a, b) \<in> set (pixel_neighs_triangular x y n)"
proof -
  from assms(3) consider
    "0 < a" "b \<le> a - 1" "x = a - 1" "y = b" | "a + 1 < n" "b \<le> a + 1" "x = a + 1" "y = b" |
    "0 < b" "b - 1 \<le> a" "x = a" "y = b - 1" | "b + 1 < n" "b + 1 \<le> a" "x = a" "y = b + 1"
    unfolding set_pixel_neighs_triangular by auto
  then show ?thesis
  proof cases
    case 1
    then have "x + 1 < n" "y \<le> x + 1" "a = x + 1" "b = y" "y \<le> x" using assms(1,2) by simp_all
    then show ?thesis unfolding set_pixel_neighs_triangular by simp
  next
    case 2
    then have "0 < x" "y \<le> x - 1" "a = x - 1" "b = y" "x < n" using assms(1,2) by simp_all
    then show ?thesis unfolding set_pixel_neighs_triangular by auto
  next
    case 3
    then have "y + 1 < n" "y + 1 \<le> x" "a = x" "b = y + 1" "x < n" using assms(1,2) by simp_all
    then show ?thesis unfolding set_pixel_neighs_triangular by simp
  next
    case 4
    then have "0 < y" "y - 1 \<le> x" "a = x" "b = y - 1" "x < n" "y \<le> x" using assms(1,2) by simp_all
    then show ?thesis unfolding set_pixel_neighs_triangular by auto
  qed
qed

lemma set_lower_range: "set (lower_range n) = {(i, j). j \<le> i \<and> i < n}"
  by (auto simp: lower_range_def set_product_range)

lemma graph_ok_init: "graph_ok (init_graph triangular s0 s1)"
proof (cases triangular)
  case True
  have "graph_ok \<lparr>pixels = map (\<lambda>(i, j). Some [i * s0 + j]) (lower_range s0),
         neighs = map (\<lambda>(i, j). Some (remdups
                    (map (\<lambda>(a, b). tri_index a b) (pixel_neighs_triangular i j s0))))
                    (lower_range s0),
         draws = 0\<rparr>"
  proof (rule graph_ok_grid[OF tri_index_lower_range])
    fix a b x y
    assume "(a, b) \<in> set (lower_range s0)" "(x, y) \<in> set (pixel_neighs_triangular a b s0)"
    then show "(x, y) \<in> set (lower_range s0) \<and> (x, y) \<noteq> (a, b) \<and>
               (a, b) \<in> set (pixel_neighs_triangular x y s0)"
      using pixel_neighs_triangular_sym[of b a s0 x y] by (simp add: set_lower_range)
  qed
  with True show ?thesis by (simp add: init_graph_def)
next
  case False
  have "graph_ok \<lparr>pixels = map (\<lambda>(i, j). Some [i * s1 + j]) (product_range s0 s1),
         neighs = map (\<lambda>(i, j). Some (remdups
                    (map (\<lambda>(a, b). a * s1 + b) (pixel_neighs i j s0 s1))))
                    (product_range s0 s1),
         draws = 0\<rparr>"
  proof (rule graph_ok_grid[OF flat_index_range])
    fix a b x y
    assume "(a, b) \<in> set (product_range s0 s1)" "(x, y) \<in> set (pixel_neighs a b s0 s1)"
    then show "(x, y) \<in> set (product_range s0 s1) \<and> (x, y) \<noteq> (a, b) \<and>
               (a, b) \<in> set (pixel_neighs x y s0 s1)"
      using pixel_neighs_sym[of a s0 b s1 x y] by (simp add: set_product_range)
  qed
  with False show ?thesis by (simp add: init_graph_def)
qed

lemma graph_ok_draws [simp]: "graph_ok (g\<lparr>draws := d\<rparr>) = graph_ok g"
  by (simp add: graph_ok_def nbrs_def)

lemma visit_graph_ok:
  assumes ok: "graph_ok g" and v: "visit U V threshold minthreshold r serp g = Inr g'"
  shows "graph_ok g'"
proof (cases "g' = g")
  case True
  with ok show ?thesis by simp
next
  case False
  with v obtain mn where mg: "merge serp mn (g\<lparr>draws := draws g + 1\<rparr>) = Inr g'"
    unfolding visit_def expand_def by (auto split: if_splits option.splits)
  from merge_graph_ok[OF _ mg] ok show ?thesis by simp
qed

section \<open>The regions at convergence\<close>

lemma two_alive:
  assumes "k < length (pixels g)" "m < length (pixels g)" "k \<noteq> m"
    "pixels g ! k \<noteq> None" "pixels g ! m \<noteq> None"
  shows "2 \<le> alive_count g"
proof -
  have "{k, m} \<subseteq> {i. i < length (pixels g) \<and> pixels g ! i \<noteq> None}"
    using assms by simp
  then have "card {k, m} \<le> card {i. i < length (pixels g) \<and> pixels g ! i \<noteq> None}"
    by (intro card_mono) simp_all
  then show ?thesis using assms(3) by (simp add: alive_count_def length_filter_conv_card)
qed

lemma single_region_isolated:
  assumes ok: "graph_ok g" and one: "alive_count g = 1"
    and k: "k < length (pixels g)" "pixels g ! k = Some ps"
  shows "neighs g ! k = Some []"
proof -
  note O = ok[unfolded graph_ok_def]
  note cons = O[THEN conjunct2, THEN conjunct1]
  note sym = O[THEN conjunct2, THEN conjunct2, THEN conjunct2]
  from cons k obtain ns where ns: "neighs g ! k = Some ns" by auto
  have "m \<notin> nbrs g k" for m
  proof
    assume m: "m \<in> nbrs g k"
    with sym k(1) have a: "m < length (pixels g)" "m \<noteq> k" "k \<in> nbrs g m" by blast+
    then have "neighs g ! m \<noteq> None" by (auto simp: nbrs_def split: option.splits)
    with cons a(1) have "pixels g ! m \<noteq> None" by simp
    from two_alive[OF k(1) a(1) _ _ this] k(2) a(2) one show False by simp
  qed
  with ns have "\<forall>m. m \<notin> set ns" by (simp add: nbrs_def)
  then have "ns = []" by (cases ns) auto
  with ns show ?thesis by simp
qed

lemma visit_unchanged_predicate:
  assumes v: "visit U V threshold minthreshold r k g = Inr g"
    and k: "k < length (pixels g)" "pixels g ! k = Some ps"
  shows "\<not> merge_predicate threshold minthreshold (sum_list (map (\<lambda>p. U ! p) ps))
            (sum_list (map (\<lambda>p. V ! p) ps))"
proof
  assume "merge_predicate threshold minthreshold (sum_list (map (\<lambda>p. U ! p) ps))
            (sum_list (map (\<lambda>p. V ! p) ps))"
  with v k have "expand r k g = Inr g" by (simp add: visit_def aggregate_sum)
  from expand_changes[OF this] show False by simp
qed

lemma run_length:
  assumes "run_passes start U V threshold minthreshold r i g prev cur = Inr (g', i')"
  shows "length (pixels g') = length (pixels g)"
proof (rule run_passes_invariant[where I = "\<lambda>h. length (pixels h) = length (pixels g)", OF _ _ assms])
  fix x h h'
  assume "length (pixels h) = length (pixels g)" "visit U V threshold minthreshold r x h = Inr h'"
  then show "length (pixels h') = length (pixels g)" using visit_dead by fastforce
qed simp

lemma run_graph_ok:
  assumes "run_passes start U V threshold minthreshold r i g prev cur = Inr (g', i')"
    and "graph_ok g"
  shows "graph_ok g'"
proof (rule run_passes_invariant[where I = graph_ok, OF _ assms(2) assms(1)])
  fix x h h'
  assume "graph_ok h" "visit U V threshold minthreshold r x h = Inr h'"
  then show "graph_ok h'" by (rule visit_graph_ok)
qed

text \<open>
  Claim C5. When a trial's pass loop returns, every alive region either fails the
  merge predicate, that is \<open>(a \<ge> threshold \<or> b \<ge> threshold) \<and> a \<ge> minthreshold \<and>
  b \<ge> minthreshold\<close> for its sums \<open>a\<close> and \<open>b\<close>, or has no neighbour left. Every pass
  visits the identifiers in a permutation of \<open>range(len(pixels))\<close>.
\<close>

theorem threshold_or_isolated:
  assumes run: "run_passes (init_start triangular s0 s1) U V threshold minthreshold r 0
             (init_graph triangular s0 s1) 0 1 = Inr (g', i')"
    and perm: "\<forall>i. mset (perms r i) = mset [0..<init_start triangular s0 s1]"
    and k: "k < length (pixels g')" "pixels g' ! k = Some ps"
  shows "((sum_list (map (\<lambda>p. U ! p) ps) \<ge> threshold \<or>
           sum_list (map (\<lambda>p. V ! p) ps) \<ge> threshold) \<and>
          sum_list (map (\<lambda>p. U ! p) ps) \<ge> minthreshold \<and>
          sum_list (map (\<lambda>p. V ! p) ps) \<ge> minthreshold) \<or>
         neighs g' ! k = Some []"
proof -
  note t = trial_loop[OF run]
  have len: "length (pixels g') = init_start triangular s0 s1"
    using run_length[OF run] by (simp add: length_pixels_init)
  show ?thesis
  proof (cases "i' = 1")
    case True
    with t have one: "alive_count g' = 1" by blast
    have "graph_ok g'" using run_graph_ok[OF run graph_ok_init] .
    from single_region_isolated[OF this one k] show ?thesis by simp
  next
    case False
    with t have "visit_all U V threshold minthreshold r (perms r (i' - 1)) g' = Inr g'"
      by auto
    from visit_all_fixed[OF this] have
      all: "\<forall>x\<in>set (perms r (i' - 1)). visit U V threshold minthreshold r x g' = Inr g'"
      by simp
    have "set (perms r (i' - 1)) = set [0..<init_start triangular s0 s1]"
      using perm by (metis mset_eq_setD)
    with k(1) len have "k \<in> set (perms r (i' - 1))" by simp
    with all have "visit U V threshold minthreshold r k g' = Inr g'" by blast
    from visit_unchanged_predicate[OF this k] show ?thesis
      by (auto simp: merge_predicate_def)
  qed
qed

text \<open>
  Witness for C5: the 2 by 2 matrix of ones with thresholds 3 and 0 ends with one
  region of sums 4.
\<close>

theorem threshold_or_isolated_witness:
  "run_passes (init_start False 2 2) [1, 1, 1, 1] [1, 1, 1, 1] 3 0 (const_rng [0, 1, 2, 3] 0) 0
     (init_graph False 2 2) 0 1 =
     Inr (\<lparr>pixels = [Some [0, 2, 1, 3], None, None, None],
           neighs = [Some [], None, None, None], draws = 3\<rparr>, 3) \<and>
   (\<forall>i. mset (perms (const_rng [0, 1, 2, 3] 0) i) = mset [0..<init_start False 2 2]) \<and>
   (3 \<le> sum_list (map (\<lambda>p. [1, 1, 1, 1::real] ! p) [0, 2, 1, 3]) \<or>
    3 \<le> sum_list (map (\<lambda>p. [1, 1, 1, 1::real] ! p) [0, 2, 1, 3])) \<and>
   0 \<le> sum_list (map (\<lambda>p. [1, 1, 1, 1::real] ! p) [0, 2, 1, 3])"
proof -
  let ?g = "\<lparr>pixels = [Some [0, 2, 1, 3], None, None, None],
           neighs = [Some [], None, None, None], draws = 3\<rparr>"
  have l: "run_passes (init_start False 2 2) [1, 1, 1, 1] [1, 1, 1, 1] 3 0 (const_rng [0, 1, 2, 3] 0) 0
     (init_graph False 2 2) 0 1 = Inr (?g, 3)" by (simp add: trial_eval)
  have p: "\<forall>i. mset (perms (const_rng [0, 1, 2, 3] 0) i) = mset [0..<init_start False 2 2]"
    by (simp add: const_rng_def init_start_def upt_rec eval_nat_numeral)
  have k: "0 < length (pixels ?g)" "pixels ?g ! 0 = Some [0, 2, 1, 3]" by simp_all
  from threshold_or_isolated[OF l p k] l p show ?thesis by simp
qed

section \<open>The returned arrays\<close>

lemma flat_div_mod: "j < n \<Longrightarrow> (i * n + j) div n = i \<and> (i * n + j) mod n = (j::nat)"
  by simp

lemma flat_less: "i < n \<Longrightarrow> j < n \<Longrightarrow> i * n + j < n * (n::nat)"
proof -
  assume a: "i < n" "j < n"
  then have "i * n + j < i * n + n" by simp
  also have "\<dots> = Suc i * n" by simp
  also have "\<dots> \<le> n * n" using a(1) by (metis Suc_leI mult_le_mono1)
  finally show ?thesis .
qed

lemma symmetrise_nth:
  assumes "i < n" "j < n"
  shows "symmetrise n U ! (i * n + j) = (if j \<le> i then U ! (i * n + j) else U ! (j * n + i))"
proof -
  let ?k = "i * n + j"
  let ?f = "\<lambda>k. tril n U (k div n) (k mod n) + tril n U (k mod n) (k div n) -
               (if k div n = k mod n then tril n U (k div n) (k div n) else 0)"
  have k: "?k < length [0..<n * n]" using flat_less[OF assms] by simp
  have "symmetrise n U ! ?k = ?f ([0..<n * n] ! ?k)"
    unfolding symmetrise_def using k by (rule nth_map)
  also have "[0..<n * n] ! ?k = ?k" using k by simp
  also have "?f ?k = tril n U i j + tril n U j i - (if i = j then tril n U i i else 0)"
    using assms(2) by (simp only: div_mult_self3 mod_mult_self3 div_less mod_less add_0_right)
  finally show ?thesis by (auto simp: tril_def)
qed

lemma log_ratio_tril_nth:
  assumes "i < n" "j < n"
  shows "log_ratio_tril n U V ! (i * n + j) =
         (if j \<le> i then flog2 (ratio (V ! (i * n + j)) (U ! (i * n + j))) else Fin 0)"
proof -
  let ?k = "i * n + j"
  let ?f = "\<lambda>k. if k mod n \<le> k div n then flog2 (ratio (V ! k) (U ! k)) else Fin 0"
  have k: "?k < length [0..<n * n]" using flat_less[OF assms] by simp
  have "log_ratio_tril n U V ! ?k = ?f ([0..<n * n] ! ?k)"
    unfolding log_ratio_tril_def using k by (rule nth_map)
  also have "[0..<n * n] ! ?k = ?k" using k by simp
  finally show ?thesis using flat_div_mod[OF assms(2), of i] by simp
qed

lemma check_shapes_square:
  assumes c: "check_shapes True A B"
  shows "\<exists>n. shape A = [n, n] \<and> shape B = [n, n]"
proof -
  from c have eq: "shape B = shape A" and l: "length (shape A) = 2"
    and mm: "Min (set (shape A)) = Max (set (shape A))"
    by (auto simp: check_shapes_def)
  from l obtain h w where hw: "shape A = [h, w]"
    by (cases "shape A"; cases "tl (shape A)") auto
  with mm have "Min {h, w} = Max {h, w}" by simp
  then have "h = w" by (simp add: min_def max_def split: if_splits)
  with hw eq show ?thesis by simp
qed

lemma iteration_unfold:
  "serpentin_iteration A B threshold minthreshold triangular r =
     (if \<not> check_shapes triangular A B then Inl ValueError
      else if \<not> minthreshold < threshold then Inl ValueError
      else case run_passes (init_start triangular (shape A ! 0) (shape A ! 1)) (cells A) (cells B)
                  threshold minthreshold r 0
                  (init_graph triangular (shape A ! 0) (shape A ! 1)) 0 1 of
             Inl e \<Rightarrow> Inl e
           | Inr (g, i) \<Rightarrow>
               if init_start triangular (shape A ! 0) (shape A ! 1) = 0
               then Inl ZeroDivisionError
               else Inr (trial_outputs triangular (shape A ! 0) (shape A ! 1)
                      (fold fill_region (alive_regions g) (cells A))
                      (fold fill_region (alive_regions g) (cells B))))"
  unfolding serpentin_iteration_def trial_outputs_def Let_def
  by (simp split: sum.splits prod.splits)

lemma iteration_Inr:
  assumes "serpentin_iteration A B threshold minthreshold triangular r = Inr res"
  shows "check_shapes triangular A B \<and> minthreshold < threshold \<and>
         (\<exists>g i. run_passes (init_start triangular (shape A ! 0) (shape A ! 1)) (cells A) (cells B)
                  threshold minthreshold r 0
                  (init_graph triangular (shape A ! 0) (shape A ! 1)) 0 1 = Inr (g, i) \<and>
                res = trial_outputs triangular (shape A ! 0) (shape A ! 1)
                      (fold fill_region (alive_regions g) (cells A))
                      (fold fill_region (alive_regions g) (cells B)))"
  using assms unfolding iteration_unfold
  by (simp split: if_splits sum.splits prod.splits)

lemma triangular_outputs:
  assumes "serpentin_iteration A B threshold minthreshold True r = Inr (Amod, Bmod, D)"
  shows "\<exists>n U V. shape A = [n, n] \<and> cells Amod = symmetrise n U \<and> cells Bmod = symmetrise n V \<and>
           fcells D = log_ratio_tril n U V"
proof -
  from iteration_Inr[OF assms] obtain g i where
    c: "check_shapes True A B" and
    res: "(Amod, Bmod, D) = trial_outputs True (shape A ! 0) (shape A ! 1)
                      (fold fill_region (alive_regions g) (cells A))
                      (fold fill_region (alive_regions g) (cells B))"
    by blast
  from check_shapes_square[OF c] obtain n where n: "shape A = [n, n]" by blast
  from res n have "cells Amod = symmetrise n (fold fill_region (alive_regions g) (cells A))"
    "cells Bmod = symmetrise n (fold fill_region (alive_regions g) (cells B))"
    "fcells D = log_ratio_tril n (fold fill_region (alive_regions g) (cells A))
                      (fold fill_region (alive_regions g) (cells B))"
    by (simp_all add: trial_outputs_def)
  with n show ?thesis by blast
qed

text \<open>
  Claim C7. In triangular mode the returned matrix \<open>D\<close> is \<open>log2(Bmod / Amod)\<close> at
  the positions with \<open>j \<le> i\<close>, where \<open>Amod\<close> and \<open>Bmod\<close> hold the mean-filled values,
  and zero at the positions with \<open>i < j\<close>: nothing is mirrored.
\<close>

theorem triangular_log_ratio:
  assumes "serpentin_iteration A B threshold minthreshold True r = Inr (Amod, Bmod, D)"
    and "i < shape A ! 0" and "j < shape A ! 0"
  shows "fcells D ! (i * (shape A ! 0) + j) =
         (if j \<le> i
          then flog2 (ratio (cells Bmod ! (i * (shape A ! 0) + j))
                            (cells Amod ! (i * (shape A ! 0) + j)))
          else Fin 0)"
proof -
  from triangular_outputs[OF assms(1)] obtain n U V where
    n: "shape A = [n, n]" and a: "cells Amod = symmetrise n U"
    and b: "cells Bmod = symmetrise n V" and d: "fcells D = log_ratio_tril n U V"
    by blast
  from assms(2,3) n have ij: "i < n" "j < n" by simp_all
  show ?thesis
    using n by (simp add: a b d symmetrise_nth[OF ij] log_ratio_tril_nth[OF ij])
qed

text \<open>
  Witness for C7: the symmetric matrices \<open>[[0, 4], [4, 0]]\<close> and \<open>[[0, 8], [8, 0]]\<close>
  with thresholds 3 and 0. The three pixels of the lower triangle merge into one
  region with means \<open>4 / 3\<close> and \<open>8 / 3\<close>; \<open>D\<close> is 1 at the position \<open>(1, 0)\<close> and 0 at
  the position \<open>(0, 1)\<close>.
\<close>

theorem triangular_log_ratio_witness:
  "serpentin_iteration \<lparr>shape = [2, 2], cells = [0, 4, 4, 0]\<rparr>
     \<lparr>shape = [2, 2], cells = [0, 8, 8, 0]\<rparr> 3 0 True (const_rng [0, 1, 2] 0) =
     Inr (\<lparr>shape = [2, 2], cells = [4 / 3, 4 / 3, 4 / 3, 4 / 3]\<rparr>,
          \<lparr>shape = [2, 2], cells = [8 / 3, 8 / 3, 8 / 3, 8 / 3]\<rparr>,
          \<lparr>fshape = [2, 2], fcells = [Fin 1, Fin 0, Fin 1, Fin 1]\<rparr>) \<and>
   (1::nat) < 2 \<and> (0::nat) < 2 \<and>
   [Fin 1, Fin 0, Fin 1, Fin 1] ! (1 * 2 + 0) = flog2 (ratio (8 / 3) (4 / 3)) \<and>
   [Fin 1, Fin 0, Fin 1, Fin 1] ! (0 * 2 + 1) = Fin 0"
proof -
  have e: "serpentin_iteration \<lparr>shape = [2, 2], cells = [0, 4, 4, 0]\<rparr>
     \<lparr>shape = [2, 2], cells = [0, 8, 8, 0]\<rparr> 3 0 True (const_rng [0, 1, 2] 0) =
     Inr (\<lparr>shape = [2, 2], cells = [4 / 3, 4 / 3, 4 / 3, 4 / 3]\<rparr>,
          \<lparr>shape = [2, 2], cells = [8 / 3, 8 / 3, 8 / 3, 8 / 3]\<rparr>,
          \<lparr>fshape = [2, 2], fcells = [Fin 1, Fin 0, Fin 1, Fin 1]\<rparr>)"
  proof -
    let ?g = "\<lparr>pixels = [None, None, Some [3, 0, 2]], neighs = [None, None, Some []], draws = 2\<rparr>"
    have r: "run_passes (init_start True 2 2) [0, 4, 4, 0] [0, 8, 8, 0] 3 0 (const_rng [0, 1, 2] 0) 0
               (init_graph True 2 2) 0 1 = Inr (?g, 1)"
      by (simp add: trial_eval)
    have fa: "fold fill_region (alive_regions ?g) [0, 4, 4, 0] = [4 / 3, 4, 4 / 3, 4 / 3]"
      by (simp add: trial_eval)
    have fb: "fold fill_region (alive_regions ?g) [0, 8, 8, 0] = [8 / 3, 8, 8 / 3, 8 / 3]"
      by (simp add: trial_eval)
    have sa: "symmetrise 2 [4 / 3, 4, 4 / 3, 4 / 3] = [4 / 3, 4 / 3, 4 / 3, 4 / 3]"
      by (simp add: trial_eval)
    have sb: "symmetrise 2 [8 / 3, 8, 8 / 3, 8 / 3] = [8 / 3, 8 / 3, 8 / 3, 8 / 3]"
      by (simp add: trial_eval)
    have d: "log_ratio_tril 2 [4 / 3, 4, 4 / 3, 4 / 3] [8 / 3, 8, 8 / 3, 8 / 3] =
             [Fin 1, Fin 0, Fin 1, Fin 1]"
      by (simp add: trial_eval)
    have n: "init_start True 2 2 \<noteq> 0" by (simp add: init_start_def)
    show ?thesis unfolding iteration_unfold
      by (simp add: check_shapes_eval trial_outputs_def r[simplified] n fa fb sa sb d)
  qed
  from triangular_log_ratio[OF e, of 1 0] triangular_log_ratio[OF e, of 0 1] e
  show ?thesis by simp
qed

section \<open>Validation in the trial driver\<close>

subsection \<open>No trial raises the validation error once the checks have passed\<close>

lemma rewire_not_ValueError: "rewire serp mn zs nb \<noteq> Inl ValueError"
  by (induction zs arbitrary: nb) (auto simp: set_remove_def split: option.splits)

lemma merge_not_ValueError:
  assumes "pixels g ! serp \<noteq> None" and "pixels g ! mn \<noteq> None"
  shows "merge serp mn g \<noteq> Inl ValueError"
proof -
  from assms obtain ps qs where p: "pixels g ! serp = Some ps" "pixels g ! mn = Some qs"
    by auto
  show ?thesis unfolding merge_def
    using rewire_not_ValueError
    by (auto simp: p set_remove_def split: option.splits sum.splits)
qed

lemma visit_not_ValueError:
  assumes ok: "graph_ok g"
  shows "visit U V threshold minthreshold r serp g \<noteq> Inl ValueError"
proof
  assume v: "visit U V threshold minthreshold r serp g = Inl ValueError"
  note O = ok[unfolded graph_ok_def]
  note len = O[THEN conjunct1]
  note cons = O[THEN conjunct2, THEN conjunct1]
  note sym = O[THEN conjunct2, THEN conjunct2, THEN conjunct2]
  from v obtain ps where s: "serp < length (pixels g)" and ps: "pixels g ! serp = Some ps"
    and e: "expand r serp g = Inl ValueError"
    unfolding visit_def by (auto split: if_splits option.splits)
  from e obtain ns where ns: "neighs g ! serp = Some ns" and ne: "ns \<noteq> []"
    and m: "merge serp (ns ! (picks r (draws g) mod length ns)) (g\<lparr>draws := draws g + 1\<rparr>) =
              Inl ValueError"
    unfolding expand_def by (auto split: if_splits option.splits)
  let ?mn = "ns ! (picks r (draws g) mod length ns)"
  have "?mn \<in> set ns" using ne by simp
  then have in_nb: "?mn \<in> nbrs g serp" using ns by (simp add: nbrs_def)
  with sym s have ml: "?mn < length (pixels g)" and bk: "serp \<in> nbrs g ?mn" by blast+
  from bk have "neighs g ! ?mn \<noteq> None" by (auto simp: nbrs_def split: option.splits)
  with cons ml have "pixels g ! ?mn \<noteq> None" by simp
  with merge_not_ValueError[of "g\<lparr>draws := draws g + 1\<rparr>" serp ?mn] ps m show False by simp
qed

lemma visit_all_not_ValueError:
  "graph_ok g \<Longrightarrow> visit_all U V threshold minthreshold r xs g \<noteq> Inl ValueError"
proof (induction xs arbitrary: g)
  case Nil
  then show ?case by simp
next
  case (Cons x xs)
  show ?case
  proof (cases "visit U V threshold minthreshold r x g")
    case (Inl e)
    with visit_not_ValueError[OF Cons.prems, of U V threshold minthreshold r x] show ?thesis
      by simp
  next
    case (Inr g1)
    from visit_graph_ok[OF Cons.prems Inr] have "graph_ok g1" .
    from Cons.IH[OF this] Inr show ?thesis by simp
  qed
qed

lemma run_not_ValueError:
  "graph_ok g \<Longrightarrow> run_passes start U V threshold minthreshold r i g prev cur \<noteq> Inl ValueError"
proof (induction i g prev cur rule: run_passes_induct[where start = start and U = U and V = V
      and threshold = threshold and minthreshold = minthreshold and r = r])
  case (1 i g prev cur)
  show ?case
  proof (cases "cur = prev \<or> start = 0")
    case True
    then show ?thesis by (auto simp: run_passes.simps[of start U V threshold minthreshold r i g prev cur])
  next
    case False
    show ?thesis
    proof (cases "visit_all U V threshold minthreshold r (perms r i) g")
      case (Inl e)
      with visit_all_not_ValueError[OF "1.prems", of U V threshold minthreshold r "perms r i"] False
      show ?thesis
        by (simp add: run_passes.simps[of start U V threshold minthreshold r i g prev cur])
    next
      case (Inr g1)
      have "graph_ok g1"
      proof (rule visit_all_invariant[of graph_ok, OF _ "1.prems" Inr])
        fix x h h'
        assume "graph_ok h" "visit U V threshold minthreshold r x h = Inr h'"
        then show "graph_ok h'" by (rule visit_graph_ok)
      qed
      with "1.IH"[of g1] False Inr show ?thesis
        by (simp add: run_passes.simps[of start U V threshold minthreshold r i g prev cur])
    qed
  qed
qed

lemma iteration_not_ValueError:
  assumes "check_shapes triangular A B" and "minthreshold < threshold"
  shows "serpentin_iteration A B threshold minthreshold triangular r \<noteq> Inl ValueError"
  using assms run_not_ValueError[OF graph_ok_init]
  unfolding iteration_unfold by (auto split: sum.splits prod.splits)

subsection \<open>The pool and the loop\<close>

lemma accumulate_Inl: "accumulate ts acc = Inl e \<Longrightarrow> Inl e \<in> set ts"
  by (induction ts arbitrary: acc) (auto split: sum.splits)

lemma accumulate_Inr: "\<forall>t\<in>set ts. \<exists>res. t = Inr res \<Longrightarrow> \<exists>s. accumulate ts acc = Inr s"
  by (induction ts arbitrary: acc) (auto split: sum.splits)

lemma pool_is_loop:
  "(case pool_map ts of
      Inl e \<Rightarrow> Inl e
    | Inr res \<Rightarrow> Inr (fold (\<lambda>r acc. add_trial acc r) res acc)) = accumulate ts acc"
  by (induction ts arbitrary: acc) (auto split: sum.splits)

lemma binning_unfold:
  assumes "check_shapes triangular A B" and "minthreshold < threshold"
  shows "serpentin_binning A B threshold minthreshold iterations triangular parallel rs =
         average A iterations
           (accumulate
              (map (\<lambda>x. serpentin_iteration A B threshold minthreshold triangular (rs x))
                 [0..<nat iterations])
              (replicate (length (cells A)) 0, replicate (length (cells A)) 0,
               map Fin (replicate (length (cells A)) 0)))"
  using assms unfolding serpentin_binning_def average_def Let_def pool_is_loop by simp


subsection \<open>What the driver checks\<close>

text \<open>
  Claim C8 (as stated: the driver raises when \<open>iterations \<le> 0\<close> or when the concurrency
  parameter is \<open>\<le> 0\<close>) fails on the code. With \<open>iterations = 0\<close> and 16 workers the
  driver returns three arrays of NaN; with \<open>parallel = 0\<close> and one iteration it runs
  the trial sequentially and returns its result.
\<close>

theorem binning_unchecked_parameters:
  "serpentin_binning \<lparr>shape = [1, 1], cells = [100]\<rparr> \<lparr>shape = [1, 1], cells = [100]\<rparr> 40 10 0
     False 16 (\<lambda>x. const_rng [0] 0) =
     Inr (\<lparr>fshape = [1, 1], fcells = [NaN]\<rparr>, \<lparr>fshape = [1, 1], fcells = [NaN]\<rparr>,
          \<lparr>fshape = [1, 1], fcells = [NaN]\<rparr>) \<and>
   serpentin_binning \<lparr>shape = [1, 1], cells = [100]\<rparr> \<lparr>shape = [1, 1], cells = [100]\<rparr> 40 10 1
     False 0 (\<lambda>x. const_rng [0] 0) =
     Inr (\<lparr>fshape = [1, 1], fcells = [Fin 100]\<rparr>, \<lparr>fshape = [1, 1], fcells = [Fin 100]\<rparr>,
          \<lparr>fshape = [1, 1], fcells = [Fin 0]\<rparr>)"
  by (simp add: serpentin_binning_def trial_eval)

text \<open>
  Claim C8, amended. The driver raises \<^verbatim>\<open>ValueError\<close> before any trial exactly when
  the shape check fails or \<open>minthreshold < threshold\<close> does not hold: when both checks
  pass it never raises \<^verbatim>\<open>ValueError\<close>, every error it raises is the error of one of
  its trials, and it returns whenever all its trials return, for every value of
  \<open>iterations\<close> and of \<open>parallel\<close>. It validates neither parameter. The value of
  \<open>parallel\<close> only selects between the pool and the loop, which give the same result,
  and a value \<open>\<le> 1\<close> (so also \<open>\<le> 0\<close>) selects the loop. With \<open>iterations \<le> 0\<close> no trial
  runs and the zero sums divided by \<open>iterations\<close> are returned (NaN everywhere for 0,
  zero everywhere for a negative count).
\<close>

theorem binning_validation:
  "(\<not> check_shapes triangular A B \<or> \<not> minthreshold < threshold \<longrightarrow>
      serpentin_binning A B threshold minthreshold iterations triangular parallel rs =
        Inl ValueError) \<and>
   (check_shapes triangular A B \<and> minthreshold < threshold \<longrightarrow>
      serpentin_binning A B threshold minthreshold iterations triangular parallel rs \<noteq>
        Inl ValueError \<and>
      (\<forall>e. serpentin_binning A B threshold minthreshold iterations triangular parallel rs = Inl e
         \<longrightarrow> (\<exists>x<nat iterations.
                serpentin_iteration A B threshold minthreshold triangular (rs x) = Inl e)) \<and>
      ((\<forall>x<nat iterations. \<exists>res.
           serpentin_iteration A B threshold minthreshold triangular (rs x) = Inr res) \<longrightarrow>
       (\<exists>res. serpentin_binning A B threshold minthreshold iterations triangular parallel rs =
          Inr res)) \<and>
      serpentin_binning A B threshold minthreshold iterations triangular parallel rs =
        serpentin_binning A B threshold minthreshold iterations triangular parallel' rs \<and>
      (parallel \<le> 1 \<longrightarrow>
         serpentin_binning A B threshold minthreshold iterations triangular parallel rs =
           average A iterations
             (accumulate
                (map (\<lambda>x. serpentin_iteration A B threshold minthreshold triangular (rs x))
                   [0..<nat iterations])
                (replicate (length (cells A)) 0, replicate (length (cells A)) 0,
                 map Fin (replicate (length (cells A)) 0)))) \<and>
      (iterations \<le> 0 \<longrightarrow>
         serpentin_binning A B threshold minthreshold iterations triangular parallel rs =
           (let c = replicate (length (cells A)) (if iterations = 0 then NaN else Fin 0)
            in Inr (\<lparr>fshape = shape A, fcells = c\<rparr>, \<lparr>fshape = shape A, fcells = c\<rparr>,
                    \<lparr>fshape = shape A, fcells = c\<rparr>))))"
proof (intro conjI impI)
  assume "\<not> check_shapes triangular A B \<or> \<not> minthreshold < threshold"
  then show "serpentin_binning A B threshold minthreshold iterations triangular parallel rs =
        Inl ValueError"
    by (auto simp: serpentin_binning_def)
next
  assume c: "check_shapes triangular A B \<and> minthreshold < threshold"
  let ?trials = "map (\<lambda>x. serpentin_iteration A B threshold minthreshold triangular (rs x))
                   [0..<nat iterations]"
  let ?z = "(replicate (length (cells A)) (0::real), replicate (length (cells A)) (0::real),
                 map Fin (replicate (length (cells A)) 0))"
  have u: "serpentin_binning A B threshold minthreshold iterations triangular p rs =
           average A iterations (accumulate ?trials ?z)" for p
    using c by (simp add: binning_unfold)
  have err: "\<exists>x<nat iterations.
                serpentin_iteration A B threshold minthreshold triangular (rs x) = Inl e"
    if "serpentin_binning A B threshold minthreshold iterations triangular parallel rs = Inl e"
    for e
  proof -
    from that have "accumulate ?trials ?z = Inl e"
      unfolding u average_def by (simp split: sum.splits prod.splits)
    from accumulate_Inl[OF this] show ?thesis by auto
  qed
  show "serpentin_binning A B threshold minthreshold iterations triangular parallel rs \<noteq>
        Inl ValueError"
  proof
    assume "serpentin_binning A B threshold minthreshold iterations triangular parallel rs =
        Inl ValueError"
    from err[OF this] iteration_not_ValueError c show False by blast
  qed
  show "\<forall>e. serpentin_binning A B threshold minthreshold iterations triangular parallel rs = Inl e
         \<longrightarrow> (\<exists>x<nat iterations.
                serpentin_iteration A B threshold minthreshold triangular (rs x) = Inl e)"
    using err by blast
  show "\<exists>res. serpentin_binning A B threshold minthreshold iterations triangular parallel rs =
          Inr res"
    if a: "\<forall>x<nat iterations. \<exists>res.
           serpentin_iteration A B threshold minthreshold triangular (rs x) = Inr res"
  proof -
    from a have "\<forall>t\<in>set ?trials. \<exists>res. t = Inr res" by auto
    from accumulate_Inr[OF this, of ?z] obtain s where "accumulate ?trials ?z = Inr s" by blast
    then show ?thesis unfolding u average_def by (simp split: prod.splits)
  qed
  show "serpentin_binning A B threshold minthreshold iterations triangular parallel rs =
        serpentin_binning A B threshold minthreshold iterations triangular parallel' rs"
    by (simp only: u)
  show "serpentin_binning A B threshold minthreshold iterations triangular parallel rs =
           average A iterations (accumulate ?trials ?z)"
    by (rule u)
  show "serpentin_binning A B threshold minthreshold iterations triangular parallel rs =
           (let c = replicate (length (cells A)) (if iterations = 0 then NaN else Fin 0)
            in Inr (\<lparr>fshape = shape A, fcells = c\<rparr>, \<lparr>fshape = shape A, fcells = c\<rparr>,
                    \<lparr>fshape = shape A, fcells = c\<rparr>))"
    if "iterations \<le> 0"
    using that unfolding u average_def by (auto simp: Let_def ratio_def)
qed

text \<open>
  Witness for the amended C8, on the 1 by 1 matrix holding 100: thresholds in the
  wrong order raise; with the thresholds 40 and 10 and two iterations both trials
  return and so does the driver, with \<open>parallel = 0\<close> as with 16 workers; with
  \<open>iterations = - 2\<close> and \<open>parallel = 0\<close> it returns zeros.
\<close>

theorem binning_validation_witness:
  "\<not> (40::real) < 10 \<and>
   serpentin_binning \<lparr>shape = [1, 1], cells = [100]\<rparr> \<lparr>shape = [1, 1], cells = [100]\<rparr> 10 40 5
     False 16 (\<lambda>x. const_rng [0] 0) = Inl ValueError \<and>
   check_shapes False \<lparr>shape = [1, 1], cells = [100]\<rparr> \<lparr>shape = [1, 1], cells = [100]\<rparr> \<and>
   (10::real) < 40 \<and>
   serpentin_iteration \<lparr>shape = [1, 1], cells = [100]\<rparr>
       \<lparr>shape = [1, 1], cells = [100]\<rparr> 40 10 False (const_rng [0] 0) =
       Inr (\<lparr>shape = [1, 1], cells = [100]\<rparr>, \<lparr>shape = [1, 1], cells = [100]\<rparr>,
            \<lparr>fshape = [1, 1], fcells = [Fin 0]\<rparr>) \<and>
   serpentin_binning \<lparr>shape = [1, 1], cells = [100]\<rparr> \<lparr>shape = [1, 1], cells = [100]\<rparr> 40 10 2
     False 0 (\<lambda>x. const_rng [0] 0) =
     Inr (\<lparr>fshape = [1, 1], fcells = [Fin 100]\<rparr>, \<lparr>fshape = [1, 1], fcells = [Fin 100]\<rparr>,
          \<lparr>fshape = [1, 1], fcells = [Fin 0]\<rparr>) \<and>
   serpentin_binning \<lparr>shape = [1, 1], cells = [100]\<rparr> \<lparr>shape = [1, 1], cells = [100]\<rparr> 40 10 2
     False 0 (\<lambda>x. const_rng [0] 0) =
   serpentin_binning \<lparr>shape = [1, 1], cells = [100]\<rparr> \<lparr>shape = [1, 1], cells = [100]\<rparr> 40 10 2
     False 16 (\<lambda>x. const_rng [0] 0) \<and>
   (- 2::int) \<le> 0 \<and>
   serpentin_binning \<lparr>shape = [1, 1], cells = [100]\<rparr> \<lparr>shape = [1, 1], cells = [100]\<rparr> 40 10 (- 2)
     False 0 (\<lambda>x. const_rng [0] 0) =
     Inr (\<lparr>fshape = [1, 1], fcells = [Fin 0]\<rparr>, \<lparr>fshape = [1, 1], fcells = [Fin 0]\<rparr>,
          \<lparr>fshape = [1, 1], fcells = [Fin 0]\<rparr>)"
proof -
  let ?A = "\<lparr>shape = [1, 1], cells = [100]\<rparr>"
  let ?rs = "\<lambda>x::nat. const_rng [0] 0"
  note bad = binning_validation[of False ?A ?A 40 10 5 16 ?rs]
  note two = binning_validation[of False ?A ?A 10 40 2 0 ?rs 16]
  note neg = binning_validation[of False ?A ?A 10 40 "- 2" 0 ?rs]
  have c: "check_shapes False ?A ?A" by (simp add: check_shapes_eval)
  have t: "serpentin_iteration ?A ?A 40 10 False (const_rng [0] 0) =
       Inr (\<lparr>shape = [1, 1], cells = [100]\<rparr>, \<lparr>shape = [1, 1], cells = [100]\<rparr>,
            \<lparr>fshape = [1, 1], fcells = [Fin 0]\<rparr>)"
    by (simp add: trial_eval)
  have h1: "\<not> (40::real) < 10" and h2: "(10::real) < 40" and h3: "(- 2::int) \<le> 0"
    and h4: "(0::int) \<le> 1"
    by simp_all
  note good = two[THEN conjunct2, THEN mp, OF conjI[OF c h2]]
  note e2 = good[THEN conjunct2, THEN conjunct2, THEN conjunct2, THEN conjunct1]
  note seq = good[THEN conjunct2, THEN conjunct2, THEN conjunct2, THEN conjunct2,
      THEN conjunct1, THEN mp, OF h4]
  have b2: "serpentin_binning ?A ?A 40 10 2 False 0 ?rs =
     Inr (\<lparr>fshape = [1, 1], fcells = [Fin 100]\<rparr>, \<lparr>fshape = [1, 1], fcells = [Fin 100]\<rparr>,
          \<lparr>fshape = [1, 1], fcells = [Fin 0]\<rparr>)"
    unfolding seq by (simp add: t[simplified] average_def upt_rec ratio_def eval_nat_numeral)
  from bad have e1: "serpentin_binning ?A ?A 10 40 5 False 16 ?rs = Inl ValueError" by simp
  note e3' = neg[THEN conjunct2, THEN mp, OF conjI[OF c h2], THEN conjunct2, THEN conjunct2,
      THEN conjunct2, THEN conjunct2, THEN conjunct2, THEN mp, OF h3]
  have e3: "serpentin_binning ?A ?A 40 10 (- 2) False 0 ?rs =
     Inr (\<lparr>fshape = [1, 1], fcells = [Fin 0]\<rparr>, \<lparr>fshape = [1, 1], fcells = [Fin 0]\<rparr>,
          \<lparr>fshape = [1, 1], fcells = [Fin 0]\<rparr>)"
    unfolding e3' by (simp add: Let_def)
  from h1 e1 c h2 t b2 e2 h3 e3 show ?thesis by blast
qed

section \<open>The mean fill\<close>

lemma fold_update_length: "length (fold (\<lambda>p x. x[p := m]) ps U) = length U"
  by (induction ps arbitrary: U) simp_all

lemma fold_update_nth:
  "k < length U \<Longrightarrow>
   fold (\<lambda>p x. x[p := m]) ps U ! k = (if k \<in> set ps then m else U ! k)"
proof (induction ps arbitrary: U)
  case Nil
  then show ?case by simp
next
  case (Cons p ps)
  have k: "k < length (U[p := m])" using Cons.prems by simp
  show ?case
  proof (cases "k = p")
    case True
    with Cons.IH[OF k] Cons.prems show ?thesis by simp
  next
    case False
    with Cons.IH[OF k] Cons.prems show ?thesis by simp
  qed
qed

lemma fill_region_length: "length (fill_region ps U) = length U"
  unfolding fill_region_def Let_def by (rule fold_update_length)

lemma fill_region_nth:
  "k < length U \<Longrightarrow>
   fill_region ps U ! k =
     (if k \<in> set ps then sum_list (map (\<lambda>p. U ! p) ps) / real (length ps) else U ! k)"
  unfolding fill_region_def Let_def by (simp add: fold_update_nth)


lemma fill_region_sum:
  assumes fin: "finite S" and sub: "set ps \<subseteq> S" and d: "distinct ps"
    and bound: "\<forall>k\<in>S. k < length U"
  shows "(\<Sum>k\<in>S. fill_region ps U ! k) = (\<Sum>k\<in>S. U ! k)"
proof -
  let ?m = "sum_list (map (\<lambda>p. U ! p) ps) / real (length ps)"
  have split: "(\<Sum>k\<in>S. f k) = (\<Sum>k\<in>S - set ps. f k) + (\<Sum>k\<in>set ps. f k)"
    for f :: "nat \<Rightarrow> real"
    using sum.subset_diff[OF sub fin, of f] .
  have a: "(\<Sum>k\<in>S - set ps. fill_region ps U ! k) = (\<Sum>k\<in>S - set ps. U ! k)"
  proof (rule sum.cong[OF refl])
    fix k assume "k \<in> S - set ps"
    then have "k < length U" "k \<notin> set ps" using bound by auto
    then show "fill_region ps U ! k = U ! k" by (simp add: fill_region_nth)
  qed
  have "(\<Sum>k\<in>set ps. fill_region ps U ! k) = (\<Sum>k\<in>set ps. ?m)"
  proof (rule sum.cong[OF refl])
    fix k assume k: "k \<in> set ps"
    then have "k < length U" using bound sub by auto
    with k show "fill_region ps U ! k = ?m" by (simp add: fill_region_nth)
  qed
  also have "\<dots> = real (length ps) * ?m"
    using d by (simp add: distinct_card)
  also have "\<dots> = sum_list (map (\<lambda>p. U ! p) ps)"
    by (cases "ps = []") simp_all
  also have "\<dots> = (\<Sum>k\<in>set ps. U ! k)"
    using d by (simp add: sum_list_distinct_conv_sum_set)
  finally have b: "(\<Sum>k\<in>set ps. fill_region ps U ! k) = (\<Sum>k\<in>set ps. U ! k)" .
  show ?thesis
    unfolding split[of "\<lambda>k. fill_region ps U ! k"] split[of "\<lambda>k. U ! k"] a b ..
qed

lemma fill_all_length: "length (fold fill_region rs U) = length U"
  by (induction rs arbitrary: U) (simp_all add: fill_region_length)

lemma fill_all_sum:
  assumes fin: "finite S"
  shows "\<forall>ps\<in>set rs. set ps \<subseteq> S \<and> distinct ps \<Longrightarrow> \<forall>k\<in>S. k < length U \<Longrightarrow>
         (\<Sum>k\<in>S. fold fill_region rs U ! k) = (\<Sum>k\<in>S. U ! k)"
proof (induction rs arbitrary: U)
  case Nil
  then show ?case by simp
next
  case (Cons ps rs)
  have b: "\<forall>k\<in>S. k < length (fill_region ps U)"
    using Cons.prems(2) by (simp add: fill_region_length)
  from Cons.prems(1) have r: "\<forall>ps\<in>set rs. set ps \<subseteq> S \<and> distinct ps"
    and p: "set ps \<subseteq> S" "distinct ps" by simp_all
  have "(\<Sum>k\<in>S. fold fill_region (ps # rs) U ! k) =
        (\<Sum>k\<in>S. fold fill_region rs (fill_region ps U) ! k)" by simp
  also have "\<dots> = (\<Sum>k\<in>S. fill_region ps U ! k)" by (rule Cons.IH[OF r b])
  also have "\<dots> = (\<Sum>k\<in>S. U ! k)" by (rule fill_region_sum[OF fin p Cons.prems(2)])
  finally show ?case .
qed

lemma alive_regions_covers:
  assumes "covers P g"
  shows "\<forall>ps\<in>set (alive_regions g). set ps \<subseteq> set P \<and> distinct ps"
proof
  fix ps assume ps: "ps \<in> set (alive_regions g)"
  from assms have d: "distinct (concat (alive_regions g))"
    and s: "set (concat (alive_regions g)) = set P"
    by (simp_all add: covers_def members_def)
  from ps s have "set ps \<subseteq> set P" by auto
  moreover from d ps have "distinct ps" by (simp add: distinct_concat_iff)
  ultimately show "set ps \<subseteq> set P \<and> distinct ps" by simp
qed

lemma run_covers:
  assumes "run_passes start U V threshold minthreshold r 0 (init_graph triangular s0 s1) 0 1 =
      Inr (g, i)"
  shows "covers (pixel_universe triangular s0 s1) g"
proof (rule run_passes_invariant[where I = "covers (pixel_universe triangular s0 s1)",
        OF _ covers_init assms])
  fix x h h'
  assume "covers (pixel_universe triangular s0 s1) h"
    and "visit U V threshold minthreshold r x h = Inr h'"
  then show "covers (pixel_universe triangular s0 s1) h'" by (rule visit_covers)
qed

lemma universe_bound:
  assumes "k \<in> set (pixel_universe triangular s0 s1)" and "triangular \<longrightarrow> s0 = s1"
  shows "k < s0 * s1"
proof -
  have "set (pixel_universe triangular s0 s1) \<subseteq> set (map (\<lambda>(i, j). i * s1 + j) (product_range s0 s1))"
    using assms(2) by (auto simp: pixel_universe_def lower_range_def)
  with assms(1) show ?thesis by (auto simp: flat_index_range)
qed


lemma check_shapes_two:
  assumes c: "check_shapes triangular A B"
  shows "\<exists>s0 s1. shape A = [s0, s1] \<and> shape B = [s0, s1] \<and> (triangular \<longrightarrow> s0 = s1)"
proof -
  from c have eq: "shape B = shape A" and l: "length (shape A) = 2"
    and mm: "triangular \<longrightarrow> Min (set (shape A)) = Max (set (shape A))"
    by (auto simp: check_shapes_def)
  from l obtain h w where hw: "shape A = [h, w]"
    by (cases "shape A"; cases "tl (shape A)") auto
  have "h = w" if triangular
  proof -
    from mm that hw have "Min {h, w} = Max {h, w}" by simp
    then show ?thesis by (simp add: min_def max_def split: if_splits)
  qed
  with hw eq show ?thesis by simp
qed

lemma filled_sum:
  assumes run: "run_passes start U V threshold minthreshold r 0 (init_graph triangular s0 s1) 0 1 =
      Inr (g, i)"
    and sq: "triangular \<longrightarrow> s0 = s1" and len: "length W = s0 * s1"
  shows "(\<Sum>k\<in>set (pixel_universe triangular s0 s1). fold fill_region (alive_regions g) W ! k) =
         (\<Sum>k\<in>set (pixel_universe triangular s0 s1). W ! k)"
proof (rule fill_all_sum)
  show "finite (set (pixel_universe triangular s0 s1))" by simp
  show "\<forall>ps\<in>set (alive_regions g).
          set ps \<subseteq> set (pixel_universe triangular s0 s1) \<and> distinct ps"
    by (rule alive_regions_covers[OF run_covers[OF run]])
  show "\<forall>k\<in>set (pixel_universe triangular s0 s1). k < length W"
    using universe_bound[OF _ sq] len by simp
qed

lemma sum_lower_range:
  "(\<Sum>(i, j)\<leftarrow>lower_range n. W ! (i * n + j)) = (\<Sum>k\<in>set (pixel_universe True n n). W ! k)"
proof -
  have "(\<Sum>(i, j)\<leftarrow>lower_range n. W ! (i * n + j)) =
        sum_list (map (\<lambda>k. W ! k) (pixel_universe True n n))"
    by (simp add: pixel_universe_def comp_def split_def)
  also have "\<dots> = (\<Sum>k\<in>set (pixel_universe True n n). W ! k)"
    by (rule sum_list_distinct_conv_sum_set[OF distinct_universe])
  finally show ?thesis .
qed

lemma symmetrise_lower_sum:
  "(\<Sum>(i, j)\<leftarrow>lower_range n. symmetrise n W ! (i * n + j)) =
   (\<Sum>(i, j)\<leftarrow>lower_range n. W ! (i * n + j))"
proof -
  have "map (\<lambda>(i, j). symmetrise n W ! (i * n + j)) (lower_range n) =
        map (\<lambda>(i, j). W ! (i * n + j)) (lower_range n)"
  proof (rule map_cong[OF refl])
    fix p assume "p \<in> set (lower_range n)"
    then obtain i j where p: "p = (i, j)" and ij: "j \<le> i" "i < n"
      by (auto simp: set_lower_range)
    then have "i < n" "j < n" by simp_all
    from symmetrise_nth[OF this, of W] ij p
    show "(case p of (i, j) \<Rightarrow> symmetrise n W ! (i * n + j)) =
          (case p of (i, j) \<Rightarrow> W ! (i * n + j))" by simp
  qed
  then show ?thesis by (rule arg_cong)
qed

lemma triangular_example:
  "serpentin_iteration \<lparr>shape = [2, 2], cells = [0, 4, 4, 0]\<rparr>
     \<lparr>shape = [2, 2], cells = [0, 4, 4, 0]\<rparr> 3 0 True (const_rng [0, 1, 2] 0) =
     Inr (\<lparr>shape = [2, 2], cells = [4 / 3, 4 / 3, 4 / 3, 4 / 3]\<rparr>,
          \<lparr>shape = [2, 2], cells = [4 / 3, 4 / 3, 4 / 3, 4 / 3]\<rparr>,
          \<lparr>fshape = [2, 2], fcells = [Fin 0, Fin 0, Fin 0, Fin 0]\<rparr>)"
proof -
  let ?g = "\<lparr>pixels = [None, None, Some [3, 0, 2]], neighs = [None, None, Some []], draws = 2\<rparr>"
  have r: "run_passes (init_start True 2 2) [0, 4, 4, 0] [0, 4, 4, 0] 3 0 (const_rng [0, 1, 2] 0) 0
             (init_graph True 2 2) 0 1 = Inr (?g, 1)"
    by (simp add: trial_eval)
  have fa: "fold fill_region (alive_regions ?g) [0, 4, 4, 0] = [4 / 3, 4, 4 / 3, 4 / 3]"
    by (simp add: trial_eval)
  have sa: "symmetrise 2 [4 / 3, 4, 4 / 3, 4 / 3] = [4 / 3, 4 / 3, 4 / 3, 4 / 3]"
    by (simp add: trial_eval)
  have d: "log_ratio_tril 2 [4 / 3, 4, 4 / 3, 4 / 3] [4 / 3, 4, 4 / 3, 4 / 3] =
           [Fin 0, Fin 0, Fin 0, Fin 0]"
    by (simp add: trial_eval)
  have n: "init_start True 2 2 \<noteq> 0" by (simp add: init_start_def)
  show ?thesis
    unfolding iteration_unfold
    by (simp add: check_shapes_eval trial_outputs_def r[simplified] n fa sa d)
qed


text \<open>
  Claim C6 (as stated: the sums of all entries of \<open>Amod\<close> and of \<open>A\<close> are equal in both
  modes) fails in triangular mode, also on symmetric input. For \<open>A = B = [[0, 4], [4, 0]]\<close>
  with thresholds 3 and 0 the three pixels of the lower triangle merge into one region
  of mean \<open>4 / 3\<close>; the symmetric reconstruction returns \<open>4 / 3\<close> everywhere, of sum
  \<open>16 / 3\<close>, while the entries of \<open>A\<close> sum to 8.
\<close>

theorem triangular_mass_not_conserved:
  "serpentin_iteration \<lparr>shape = [2, 2], cells = [0, 4, 4, 0]\<rparr>
     \<lparr>shape = [2, 2], cells = [0, 4, 4, 0]\<rparr> 3 0 True (const_rng [0, 1, 2] 0) =
     Inr (\<lparr>shape = [2, 2], cells = [4 / 3, 4 / 3, 4 / 3, 4 / 3]\<rparr>,
          \<lparr>shape = [2, 2], cells = [4 / 3, 4 / 3, 4 / 3, 4 / 3]\<rparr>,
          \<lparr>fshape = [2, 2], fcells = [Fin 0, Fin 0, Fin 0, Fin 0]\<rparr>) \<and>
   sum_list [4 / 3, 4 / 3, 4 / 3, 4 / 3 :: real] \<noteq> sum_list [0, 4, 4, 0]"
  using triangular_example by simp

text \<open>
  Claim C6, amended. In exact arithmetic, for arrays whose number of cells is the
  product of their shape, a trial that returns conserves the total mass in
  non-triangular mode: the entries of \<open>Amod\<close> sum to the sum of the entries of \<open>A\<close>,
  and likewise for \<open>B\<close>. In triangular mode what is conserved is the sum over the
  lower triangle including the diagonal.
\<close>

theorem mass_conservation:
  assumes run: "serpentin_iteration A B threshold minthreshold triangular r = Inr (Amod, Bmod, D)"
    and wf: "wf_array A" "wf_array B"
  shows "(\<not> triangular \<longrightarrow>
            sum_list (cells Amod) = sum_list (cells A) \<and>
            sum_list (cells Bmod) = sum_list (cells B)) \<and>
         (triangular \<longrightarrow>
            (\<Sum>(i, j)\<leftarrow>lower_range (shape A ! 0). cells Amod ! (i * (shape A ! 0) + j)) =
            (\<Sum>(i, j)\<leftarrow>lower_range (shape A ! 0). cells A ! (i * (shape A ! 0) + j)) \<and>
            (\<Sum>(i, j)\<leftarrow>lower_range (shape A ! 0). cells Bmod ! (i * (shape A ! 0) + j)) =
            (\<Sum>(i, j)\<leftarrow>lower_range (shape A ! 0). cells B ! (i * (shape A ! 0) + j)))"
proof -
  from iteration_Inr[OF run] obtain g i where
    c: "check_shapes triangular A B" and
    rp: "run_passes (init_start triangular (shape A ! 0) (shape A ! 1)) (cells A) (cells B)
                  threshold minthreshold r 0
                  (init_graph triangular (shape A ! 0) (shape A ! 1)) 0 1 = Inr (g, i)" and
    res: "(Amod, Bmod, D) = trial_outputs triangular (shape A ! 0) (shape A ! 1)
                      (fold fill_region (alive_regions g) (cells A))
                      (fold fill_region (alive_regions g) (cells B))"
    by blast
  from check_shapes_two[OF c] obtain s0 s1 where
    sA: "shape A = [s0, s1]" and sB: "shape B = [s0, s1]" and sq: "triangular \<longrightarrow> s0 = s1"
    by blast
  let ?U = "fold fill_region (alive_regions g) (cells A)"
  let ?V = "fold fill_region (alive_regions g) (cells B)"
  let ?P = "set (pixel_universe triangular s0 s1)"
  have lA: "length (cells A) = s0 * s1" and lB: "length (cells B) = s0 * s1"
    using wf sA sB by (simp_all add: wf_array_def)
  have rp': "run_passes (init_start triangular s0 s1) (cells A) (cells B)
                  threshold minthreshold r 0 (init_graph triangular s0 s1) 0 1 = Inr (g, i)"
    using rp sA by simp
  have fA: "(\<Sum>k\<in>?P. ?U ! k) = (\<Sum>k\<in>?P. cells A ! k)"
    by (rule filled_sum[OF rp' sq lA])
  have fB: "(\<Sum>k\<in>?P. ?V ! k) = (\<Sum>k\<in>?P. cells B ! k)"
    by (rule filled_sum[OF rp' sq lB])
  show ?thesis
  proof (intro conjI impI)
    assume nt: "\<not> triangular"
    then have P: "?P = {0..<s0 * s1}"
      by (simp add: pixel_universe_def flat_index_range)
    have full: "sum_list W = (\<Sum>k\<in>?P. W ! k)" if "length W = s0 * s1" for W :: "real list"
      unfolding P using that by (simp add: sum_list_sum_nth)
    from res nt sA have a: "cells Amod = ?U" and b: "cells Bmod = ?V"
      by (simp_all add: trial_outputs_def)
    show "sum_list (cells Amod) = sum_list (cells A)"
      unfolding a using full[of ?U] full[of "cells A"] fA lA by (simp add: fill_all_length)
    show "sum_list (cells Bmod) = sum_list (cells B)"
      unfolding b using full[of ?V] full[of "cells B"] fB lB by (simp add: fill_all_length)
  next
    assume t: triangular
    with sq have e: "s1 = s0" by simp
    from res t sA have a: "cells Amod = symmetrise s0 ?U" and b: "cells Bmod = symmetrise s0 ?V"
      by (simp_all add: trial_outputs_def)
    have n: "shape A ! 0 = s0" using sA by simp
    show "(\<Sum>(i, j)\<leftarrow>lower_range (shape A ! 0). cells Amod ! (i * (shape A ! 0) + j)) =
          (\<Sum>(i, j)\<leftarrow>lower_range (shape A ! 0). cells A ! (i * (shape A ! 0) + j))"
      unfolding n a symmetrise_lower_sum sum_lower_range using fA t e by simp
    show "(\<Sum>(i, j)\<leftarrow>lower_range (shape A ! 0). cells Bmod ! (i * (shape A ! 0) + j)) =
          (\<Sum>(i, j)\<leftarrow>lower_range (shape A ! 0). cells B ! (i * (shape A ! 0) + j))"
      unfolding n b symmetrise_lower_sum sum_lower_range using fB t e by simp
  qed
qed


text \<open>
  Witness for the amended C6: the 1 by 2 matrices \<open>[[1, 3]]\<close> and \<open>[[2, 6]]\<close>, whose two
  pixels merge, with means 2 and 4; and the triangular example above, where the lower
  triangle sums to 4 before and after.
\<close>

theorem mass_conservation_witness:
  "serpentin_iteration \<lparr>shape = [1, 2], cells = [1, 3]\<rparr> \<lparr>shape = [1, 2], cells = [2, 6]\<rparr>
     40 10 False (const_rng [0, 1] 0) =
     Inr (\<lparr>shape = [1, 2], cells = [2, 2]\<rparr>, \<lparr>shape = [1, 2], cells = [4, 4]\<rparr>,
          \<lparr>fshape = [1, 2], fcells = [Fin 1, Fin 1]\<rparr>) \<and>
   wf_array \<lparr>shape = [1, 2], cells = [1, 3]\<rparr> \<and> wf_array \<lparr>shape = [1, 2], cells = [2, 6]\<rparr> \<and>
   sum_list [2, 2 :: real] = sum_list [1, 3] \<and> sum_list [4, 4 :: real] = sum_list [2, 6] \<and>
   wf_array \<lparr>shape = [2, 2], cells = [0, 4, 4, 0]\<rparr> \<and>
   (\<Sum>(i, j)\<leftarrow>lower_range 2. [4 / 3, 4 / 3, 4 / 3, 4 / 3 :: real] ! (i * 2 + j)) =
   (\<Sum>(i, j)\<leftarrow>lower_range 2. [0, 4, 4, 0] ! (i * 2 + j))"
proof -
  let ?A = "\<lparr>shape = [1, 2], cells = [1, 3]\<rparr>"
  let ?B = "\<lparr>shape = [1, 2], cells = [2, 6]\<rparr>"
  let ?T = "\<lparr>shape = [2, 2], cells = [0, 4, 4, 0]\<rparr>"
  have e: "serpentin_iteration ?A ?B 40 10 False (const_rng [0, 1] 0) =
     Inr (\<lparr>shape = [1, 2], cells = [2, 2]\<rparr>, \<lparr>shape = [1, 2], cells = [4, 4]\<rparr>,
          \<lparr>fshape = [1, 2], fcells = [Fin 1, Fin 1]\<rparr>)"
    by (simp add: trial_eval)
  have wA: "wf_array ?A" and wB: "wf_array ?B" and wT: "wf_array ?T"
    by (simp_all add: wf_array_def)
  from mass_conservation[OF e wA wB]
  have s: "sum_list [2, 2 :: real] = sum_list [1, 3]" "sum_list [4, 4 :: real] = sum_list [2, 6]"
    by simp_all
  from mass_conservation[OF triangular_example wT wT]
  have t: "(\<Sum>(i, j)\<leftarrow>lower_range 2. [4 / 3, 4 / 3, 4 / 3, 4 / 3 :: real] ! (i * 2 + j)) =
   (\<Sum>(i, j)\<leftarrow>lower_range 2. [0, 4, 4, 0] ! (i * 2 + j))"
    by simp
  from e wA wB s wT t show ?thesis by blast
qed

section \<open>Entries above the diagonal in triangular mode\<close>

lemma aggregate_agree:
  assumes "\<forall>k\<in>set ps. U ! k = U' ! k"
  shows "aggregate U ps = aggregate U' ps"
proof -
  from assms have "sum_list (map (\<lambda>p. U ! p) ps) = sum_list (map (\<lambda>p. U' ! p) ps)"
    by (induction ps) simp_all
  then show ?thesis by (simp only: aggregate_sum)
qed

lemma visit_agree:
  assumes c: "covers P g"
    and u: "\<forall>k\<in>set P. U ! k = U' ! k" and v: "\<forall>k\<in>set P. V ! k = V' ! k"
  shows "visit U V threshold minthreshold r x g = visit U' V' threshold minthreshold r x g"
proof (cases "x < length (pixels g)")
  case False
  then show ?thesis by (simp add: visit_def)
next
  case True
  show ?thesis
  proof (cases "pixels g ! x")
    case None
    with True show ?thesis by (simp add: visit_def)
  next
    case (Some ps)
    from covers_subset[OF c True Some] have sub: "set ps \<subseteq> set P" by simp
    have "aggregate U ps = aggregate U' ps" "aggregate V ps = aggregate V' ps"
      using sub u v by (auto intro!: aggregate_agree)
    with True Some show ?thesis by (simp add: visit_def)
  qed
qed

lemma visit_all_agree:
  assumes u: "\<forall>k\<in>set P. U ! k = U' ! k" and v: "\<forall>k\<in>set P. V ! k = V' ! k"
  shows "covers P g \<Longrightarrow>
         visit_all U V threshold minthreshold r xs g = visit_all U' V' threshold minthreshold r xs g"
proof (induction xs arbitrary: g)
  case Nil
  then show ?case by simp
next
  case (Cons x xs)
  note e = visit_agree[OF Cons.prems u v, of threshold minthreshold r x]
  show ?case
  proof (cases "visit U V threshold minthreshold r x g")
    case (Inl err)
    with e have "visit U' V' threshold minthreshold r x g = Inl err" by simp
    with Inl show ?thesis by simp
  next
    case (Inr g1)
    from visit_covers[OF Cons.prems Inr] have "covers P g1" .
    from Inr e have "visit U' V' threshold minthreshold r x g = Inr g1" by simp
    with Cons.IH[OF \<open>covers P g1\<close>] Inr show ?thesis by simp
  qed
qed

lemma run_agree:
  assumes u: "\<forall>k\<in>set P. U ! k = U' ! k" and v: "\<forall>k\<in>set P. V ! k = V' ! k"
  shows "covers P g \<Longrightarrow>
         run_passes start U V threshold minthreshold r i g prev cur =
         run_passes start U' V' threshold minthreshold r i g prev cur"
proof (induction i g prev cur rule: run_passes_induct[where start = start and U = U and V = V
      and threshold = threshold and minthreshold = minthreshold and r = r])
  case (1 i g prev cur)
  note e = visit_all_agree[OF u v "1.prems", of threshold minthreshold r "perms r i"]
  show ?case
  proof (cases "cur = prev \<or> start = 0")
    case True
    then show ?thesis
      by (auto simp: run_passes.simps[of start U V threshold minthreshold r i g prev cur]
                     run_passes.simps[of start U' V' threshold minthreshold r i g prev cur])
  next
    case False
    show ?thesis
    proof (cases "visit_all U V threshold minthreshold r (perms r i) g")
      case (Inl err)
      with e have "visit_all U' V' threshold minthreshold r (perms r i) g = Inl err" by simp
      with Inl False show ?thesis
        by (simp add: run_passes.simps[of start U V threshold minthreshold r i g prev cur]
                      run_passes.simps[of start U' V' threshold minthreshold r i g prev cur])
    next
      case (Inr g1)
      have "covers P g1"
      proof (rule visit_all_invariant[of "covers P", OF _ "1.prems" Inr])
        fix y h h'
        assume "covers P h" "visit U V threshold minthreshold r y h = Inr h'"
        then show "covers P h'" by (rule visit_covers)
      qed
      with "1.IH"[of g1] False Inr have
        "run_passes start U V threshold minthreshold r (i + 1) g1 cur (alive_count g1) =
         run_passes start U' V' threshold minthreshold r (i + 1) g1 cur (alive_count g1)"
        by simp
      moreover from e Inr have "visit_all U' V' threshold minthreshold r (perms r i) g = Inr g1"
        by simp
      ultimately show ?thesis using False Inr
        by (simp add: run_passes.simps[of start U V threshold minthreshold r i g prev cur]
                      run_passes.simps[of start U' V' threshold minthreshold r i g prev cur])
    qed
  qed
qed

lemma fill_region_agree:
  assumes a: "\<forall>k\<in>S. U ! k = U' ! k" and sub: "set ps \<subseteq> S"
    and b: "\<forall>k\<in>S. k < length U \<and> k < length U'"
  shows "\<forall>k\<in>S. fill_region ps U ! k = fill_region ps U' ! k"
proof
  fix k assume k: "k \<in> S"
  from a sub have "\<forall>p\<in>set ps. U ! p = U' ! p" by auto
  then have "sum_list (map (\<lambda>p. U ! p) ps) = sum_list (map (\<lambda>p. U' ! p) ps)"
    by (induction ps) simp_all
  with a b k show "fill_region ps U ! k = fill_region ps U' ! k"
    by (simp add: fill_region_nth)
qed

lemma fill_all_agree:
  "\<forall>k\<in>S. U ! k = U' ! k \<Longrightarrow> \<forall>ps\<in>set rs. set ps \<subseteq> S \<Longrightarrow>
   \<forall>k\<in>S. k < length U \<and> k < length U' \<Longrightarrow>
   \<forall>k\<in>S. fold fill_region rs U ! k = fold fill_region rs U' ! k"
proof (induction rs arbitrary: U U')
  case Nil
  then show ?case by simp
next
  case (Cons ps rs)
  from Cons.prems(2) have p: "set ps \<subseteq> S" and r: "\<forall>ps\<in>set rs. set ps \<subseteq> S" by simp_all
  have a: "\<forall>k\<in>S. fill_region ps U ! k = fill_region ps U' ! k"
    by (rule fill_region_agree[OF Cons.prems(1) p Cons.prems(3)])
  have b: "\<forall>k\<in>S. k < length (fill_region ps U) \<and> k < length (fill_region ps U')"
    using Cons.prems(3) by (simp add: fill_region_length)
  from Cons.IH[OF a r b] show ?case by simp
qed

lemma lower_in_universe:
  "j \<le> i \<Longrightarrow> i < n \<Longrightarrow> i * n + j \<in> set (pixel_universe True n n)"
  by (auto simp: set_universe)

lemma symmetrise_agree:
  assumes a: "\<forall>k\<in>set (pixel_universe True n n). U ! k = U' ! k"
  shows "symmetrise n U = symmetrise n U'"
proof -
  have t: "tril n U i j = tril n U' i j" if "i < n" for i j
    using a lower_in_universe[of j i n] that by (simp add: tril_def)
  show ?thesis unfolding symmetrise_def
  proof (rule map_cong[OF refl])
    fix k assume "k \<in> set [0..<n * n]"
    then have k: "k < n * n" by simp
    then have "0 < n" by (cases n) simp_all
    then have m: "k mod n < n" by simp
    from k have d: "k div n < n" by (simp add: less_mult_imp_div_less)
    show "tril n U (k div n) (k mod n) + tril n U (k mod n) (k div n) -
            (if k div n = k mod n then tril n U (k div n) (k div n) else 0) =
          tril n U' (k div n) (k mod n) + tril n U' (k mod n) (k div n) -
            (if k div n = k mod n then tril n U' (k div n) (k div n) else 0)"
      by (simp only: t[OF d] t[OF m])
  qed
qed

lemma log_ratio_tril_agree:
  assumes a: "\<forall>k\<in>set (pixel_universe True n n). U ! k = U' ! k"
    and b: "\<forall>k\<in>set (pixel_universe True n n). V ! k = V' ! k"
  shows "log_ratio_tril n U V = log_ratio_tril n U' V'"
  unfolding log_ratio_tril_def
proof (rule map_cong[OF refl])
  fix k assume "k \<in> set [0..<n * n]"
  then have k: "k < n * n" by simp
  from k have d: "k div n < n" by (simp add: less_mult_imp_div_less)
  show "(if k mod n \<le> k div n then flog2 (ratio (V ! k) (U ! k)) else Fin 0) =
        (if k mod n \<le> k div n then flog2 (ratio (V' ! k) (U' ! k)) else Fin 0)"
  proof (cases "k mod n \<le> k div n")
    case True
    from lower_in_universe[OF True d] have "k \<in> set (pixel_universe True n n)" by simp
    with a b True show ?thesis by simp
  next
    case False
    then show ?thesis by simp
  qed
qed

text \<open>
  Claim C10. In triangular mode a trial reads the input matrices only at the positions
  of the lower triangle including the diagonal: two input pairs of the same shape whose
  cells agree at every position with \<open>j \<le> i\<close> give, for the same random draws, the same
  result (the same triple, or the same error). The arrays are numpy arrays, so each has
  as many cells as its shape says.
\<close>

theorem triangular_ignores_upper_entries:
  assumes sh: "shape A' = shape A" "shape B' = shape B"
    and wf: "wf_array A" "wf_array B" "wf_array A'" "wf_array B'"
    and a: "\<forall>i j. j \<le> i \<and> i < shape A ! 0 \<longrightarrow>
              cells A' ! (i * (shape A ! 0) + j) = cells A ! (i * (shape A ! 0) + j)"
    and b: "\<forall>i j. j \<le> i \<and> i < shape A ! 0 \<longrightarrow>
              cells B' ! (i * (shape A ! 0) + j) = cells B ! (i * (shape A ! 0) + j)"
  shows "serpentin_iteration A' B' threshold minthreshold True r =
         serpentin_iteration A B threshold minthreshold True r"
proof (cases "check_shapes True A B \<and> minthreshold < threshold")
  case False
  moreover have "check_shapes True A' B' = check_shapes True A B"
    using sh by (auto simp: check_shapes_def)
  ultimately show ?thesis unfolding iteration_unfold by auto
next
  case True
  then have c: "check_shapes True A B" and m: "minthreshold < threshold" by simp_all
  have c': "check_shapes True A' B'" using sh c by (auto simp: check_shapes_def)
  from check_shapes_square[OF c] obtain n where sA: "shape A = [n, n]" and sB: "shape B = [n, n]"
    by blast
  let ?P = "pixel_universe True n n"
  have lA: "length (cells A) = n * n" and lA': "length (cells A') = n * n"
    and lB: "length (cells B) = n * n" and lB': "length (cells B') = n * n"
    using wf sh sA sB by (simp_all add: wf_array_def)
  have u: "\<forall>k\<in>set ?P. cells A' ! k = cells A ! k"
    using a sA by (auto simp: set_universe)
  have v: "\<forall>k\<in>set ?P. cells B' ! k = cells B ! k"
    using b sA by (auto simp: set_universe)
  have bound: "k < n * n" if "k \<in> set ?P" for k
    using universe_bound[OF that] by simp
  have run: "run_passes (init_start True n n) (cells A') (cells B') threshold minthreshold r 0
               (init_graph True n n) 0 1 =
             run_passes (init_start True n n) (cells A) (cells B) threshold minthreshold r 0
               (init_graph True n n) 0 1"
    by (rule run_agree[OF u v covers_init])
  show ?thesis
  proof (cases "run_passes (init_start True n n) (cells A) (cells B) threshold minthreshold r 0
               (init_graph True n n) 0 1")
    case (Inl err)
    with run have "run_passes (init_start True n n) (cells A') (cells B') threshold minthreshold r 0
               (init_graph True n n) 0 1 = Inl err" by simp
    with Inl c c' m sh sA show ?thesis unfolding iteration_unfold by simp
  next
    case (Inr res)
    obtain g i where res: "res = (g, i)" by (cases res)
    from Inr res have rp: "run_passes (init_start True n n) (cells A) (cells B) threshold
        minthreshold r 0 (init_graph True n n) 0 1 = Inr (g, i)" by simp
    with run have rp': "run_passes (init_start True n n) (cells A') (cells B') threshold
        minthreshold r 0 (init_graph True n n) 0 1 = Inr (g, i)" by simp
    from run_covers[OF rp] have cov: "covers ?P g" .
    from alive_regions_covers[OF cov]
    have sub: "\<forall>ps\<in>set (alive_regions g). set ps \<subseteq> set ?P" by simp
    have bA: "\<forall>k\<in>set ?P. k < length (cells A') \<and> k < length (cells A)"
      using bound lA lA' by simp
    have bB: "\<forall>k\<in>set ?P. k < length (cells B') \<and> k < length (cells B)"
      using bound lB lB' by simp
    have fA: "\<forall>k\<in>set ?P. fold fill_region (alive_regions g) (cells A') ! k =
                fold fill_region (alive_regions g) (cells A) ! k"
      by (rule fill_all_agree[OF u sub bA])
    have fB: "\<forall>k\<in>set ?P. fold fill_region (alive_regions g) (cells B') ! k =
                fold fill_region (alive_regions g) (cells B) ! k"
      by (rule fill_all_agree[OF v sub bB])
    have out: "trial_outputs True n n (fold fill_region (alive_regions g) (cells A'))
                 (fold fill_region (alive_regions g) (cells B')) =
               trial_outputs True n n (fold fill_region (alive_regions g) (cells A))
                 (fold fill_region (alive_regions g) (cells B))"
      unfolding trial_outputs_def
      by (simp add: symmetrise_agree[OF fA] symmetrise_agree[OF fB]
                    log_ratio_tril_agree[OF fA fB])
    from rp rp' c c' m sh sA out show ?thesis unfolding iteration_unfold by simp
  qed
qed

text \<open>
  Witness for C10: the matrices \<open>[[0, 9], [4, 0]]\<close> and \<open>[[0, 7], [4, 0]]\<close> agree with
  \<open>[[0, 4], [4, 0]]\<close> on the lower triangle, and give the triple of the triangular
  example above.
\<close>

theorem triangular_ignores_upper_entries_witness:
  "wf_array \<lparr>shape = [2, 2], cells = [0, 9, 4, 0]\<rparr> \<and>
   wf_array \<lparr>shape = [2, 2], cells = [0, 7, 4, 0]\<rparr> \<and>
   wf_array \<lparr>shape = [2, 2], cells = [0, 4, 4, 0]\<rparr> \<and>
   serpentin_iteration \<lparr>shape = [2, 2], cells = [0, 9, 4, 0]\<rparr>
     \<lparr>shape = [2, 2], cells = [0, 7, 4, 0]\<rparr> 3 0 True (const_rng [0, 1, 2] 0) =
     Inr (\<lparr>shape = [2, 2], cells = [4 / 3, 4 / 3, 4 / 3, 4 / 3]\<rparr>,
          \<lparr>shape = [2, 2], cells = [4 / 3, 4 / 3, 4 / 3, 4 / 3]\<rparr>,
          \<lparr>fshape = [2, 2], fcells = [Fin 0, Fin 0, Fin 0, Fin 0]\<rparr>)"
proof -
  let ?A' = "\<lparr>shape = [2, 2], cells = [0, 9, 4, 0]\<rparr>"
  let ?B' = "\<lparr>shape = [2, 2], cells = [0, 7, 4, 0]\<rparr>"
  let ?A = "\<lparr>shape = [2, 2], cells = [0, 4, 4, 0]\<rparr>"
  have w: "wf_array ?A'" "wf_array ?B'" "wf_array ?A" by (simp_all add: wf_array_def)
  have two: "i = 0 \<or> i = 1" if "i < 2" for i :: nat using that by auto
  have low: "(i = 0 \<and> j = 0) \<or> (i = 1 \<and> j = 0) \<or> (i = 1 \<and> j = 1)"
    if "j \<le> i" "i < shape ?A ! 0" for i j :: nat
    using that two[of i] by auto
  have a: "\<forall>i j. j \<le> i \<and> i < shape ?A ! 0 \<longrightarrow>
              cells ?A' ! (i * (shape ?A ! 0) + j) = cells ?A ! (i * (shape ?A ! 0) + j)"
  proof (intro allI impI, elim conjE)
    fix i j :: nat
    assume "j \<le> i" "i < shape ?A ! 0"
    from low[OF this] show
      "cells ?A' ! (i * (shape ?A ! 0) + j) = cells ?A ! (i * (shape ?A ! 0) + j)"
      by auto
  qed
  have b: "\<forall>i j. j \<le> i \<and> i < shape ?A ! 0 \<longrightarrow>
              cells ?B' ! (i * (shape ?A ! 0) + j) = cells ?A ! (i * (shape ?A ! 0) + j)"
  proof (intro allI impI, elim conjE)
    fix i j :: nat
    assume "j \<le> i" "i < shape ?A ! 0"
    from low[OF this] show
      "cells ?B' ! (i * (shape ?A ! 0) + j) = cells ?A ! (i * (shape ?A ! 0) + j)"
      by auto
  qed
  have "serpentin_iteration ?A' ?B' 3 0 True (const_rng [0, 1, 2] 0) =
        serpentin_iteration ?A ?A 3 0 True (const_rng [0, 1, 2] 0)"
    by (rule triangular_ignores_upper_entries[OF _ _ w(3) w(3) w(1) w(2) a b]) simp_all
  with triangular_example w show ?thesis by simp
qed

end
